theory Spec2Isabelle
  imports Complex_Main "HOL-Library.Product_Lexorder"
begin

section \<open>Errors and sequential loops\<close>

text \<open>
  The solvers work on floating-point arrays. The embedding computes in exact real
  arithmetic. A scalar division by zero in compiled code raises
  \<open>ZeroDivisionError\<close>; an array division by zero stores an infinity, which has no
  counterpart among the reals: such an entry is \<open>None\<close> in the model, and a run that
  reads it stops with \<open>NonFinite\<close>.
\<close>

datatype error = ZeroDivisionError | IndexError | ValueError | NonFinite

text \<open>A \<open>for\<close> loop over a list of indices threading a state; an error ends it.\<close>

fun for_each :: "('a \<Rightarrow> 's \<Rightarrow> error + 's) \<Rightarrow> 'a list \<Rightarrow> 's \<Rightarrow> error + 's" where
  "for_each f [] s = Inr s"
| "for_each f (x # xs) s = (case f x s of Inl e \<Rightarrow> Inl e | Inr s' \<Rightarrow> for_each f xs s')"

section \<open>The Thomas algorithm (lab1-pde-modeling/solver.py, thomas)\<close>

text \<open>
  The four arrays of the caller are threaded as a state \<open>(a, b, c, d)\<close>: the function
  assigns to \<open>b\<close> and \<open>d\<close> in place, so the state after the call is part of the result.
  The four arrays are different objects (no aliasing), and \<open>a\<close>, \<open>c\<close>, \<open>d\<close> are as long
  as \<open>b\<close>: compiled code does not check an index.
\<close>

type_synonym tri = "real list \<times> real list \<times> real list \<times> real list"

text \<open>One round of the forward sweep, for row \<open>i\<close>.\<close>

fun thomas_elim :: "nat \<Rightarrow> tri \<Rightarrow> error + tri" where
  "thomas_elim i (a, b, c, d) =
     (if b ! (i - 1) = 0 then Inl ZeroDivisionError
      else let w = a ! i / b ! (i - 1);
               b' = b[i := b ! i - w * c ! (i - 1)];
               d' = d[i := d ! i - w * d ! (i - 1)]
           in Inr (a, b', c, d'))"

text \<open>One round of the back substitution, for row \<open>i\<close>.\<close>

fun thomas_back :: "real list \<Rightarrow> real list \<Rightarrow> real list \<Rightarrow> nat \<Rightarrow> real list \<Rightarrow> error + real list" where
  "thomas_back b c d i y =
     (if b ! i = 0 then Inl ZeroDivisionError
      else Inr (y[i := (d ! i - c ! i * y ! (i + 1)) / b ! i]))"

text \<open>
  The whole function: the solution \<open>y\<close> (a new array of zeros, then filled) and
  the caller's four arrays after the call. \<open>range(n - 2, -1, -1)\<close> is
  \<open>rev [0..<n - 1]\<close>. With \<open>n = 0\<close> the index \<open>-1\<close> is out of range.
\<close>

definition thomas :: "real list \<Rightarrow> real list \<Rightarrow> real list \<Rightarrow> real list \<Rightarrow> error + (real list \<times> tri)" where
  "thomas a b c d =
     (let n = length b in
      case for_each thomas_elim [1..<n] (a, b, c, d) of
        Inl e \<Rightarrow> Inl e
      | Inr (a', b', c', d') \<Rightarrow>
          if n = 0 then Inl IndexError
          else if b' ! (n - 1) = 0 then Inl ZeroDivisionError
          else (case for_each (thomas_back b' c' d') (rev [0..<n - 1])
                       ((replicate n 0)[n - 1 := d' ! (n - 1) / b' ! (n - 1)]) of
                  Inl e \<Rightarrow> Inl e
                | Inr y \<Rightarrow> Inr (y, (a', b', c', d'))))"

text \<open>
  The pivots: the diagonal entry of row \<open>i\<close> as the forward sweep leaves it
  (\<open>b[i] = b[i] - w * c[i - 1]\<close> with \<open>w = a[i] / b[i - 1]\<close>), in exact
  arithmetic. The solver divides by these and by nothing else.
\<close>

fun thomas_pivot :: "real list \<Rightarrow> real list \<Rightarrow> real list \<Rightarrow> nat \<Rightarrow> real" where
  "thomas_pivot a b c 0 = b ! 0"
| "thomas_pivot a b c (Suc i) = b ! Suc i - a ! Suc i / thomas_pivot a b c i * c ! i"

section \<open>Grids\<close>

text \<open>
  A two-dimensional array is the list of its rows, a three-dimensional one the list
  of its planes. The compiled kernels check no index: the theorems assume that every
  array has the shape \<open>n \<times> m\<close> (or \<open>nx \<times> ny \<times> nz\<close>) the caller passes.
  \<open>U[i, j] = v\<close> is \<open>set2 U i j v\<close>; \<open>U[i, j]\<close> is \<open>U ! i ! j\<close>.
\<close>

type_synonym grid = "real list list"

type_synonym grid3 = "real list list list"

definition set2 :: "grid \<Rightarrow> nat \<Rightarrow> nat \<Rightarrow> real \<Rightarrow> grid" where
  "set2 U i j v = U[i := (U ! i)[j := v]]"

definition set3 :: "grid3 \<Rightarrow> nat \<Rightarrow> nat \<Rightarrow> nat \<Rightarrow> real \<Rightarrow> grid3" where
  "set3 U i j k v = U[i := (U ! i)[j := (U ! i ! j)[k := v]]]"

definition shape2d :: "nat \<Rightarrow> nat \<Rightarrow> 'a list list \<Rightarrow> bool" where
  "shape2d n m U \<longleftrightarrow> length U = n \<and> list_all (\<lambda>row. length row = m) U"

definition shape3d :: "nat \<Rightarrow> nat \<Rightarrow> nat \<Rightarrow> 'a list list list \<Rightarrow> bool" where
  "shape3d nx ny nz U \<longleftrightarrow> length U = nx \<and> list_all (shape2d ny nz) U"

text \<open>The interior nodes in the order the loops visit them (row-major).\<close>

definition interior2d :: "nat \<Rightarrow> nat \<Rightarrow> (nat \<times> nat) list" where
  "interior2d n m = List.product [1..<n - 1] [1..<m - 1]"

definition interior3d :: "nat \<Rightarrow> nat \<Rightarrow> nat \<Rightarrow> (nat \<times> nat \<times> nat) list" where
  "interior3d nx ny nz = List.product [1..<nx - 1] (List.product [1..<ny - 1] [1..<nz - 1])"

text \<open>The boundary ring: index \<open>0\<close> or the last index on some axis.\<close>

definition boundary2d :: "nat \<Rightarrow> nat \<Rightarrow> nat \<Rightarrow> nat \<Rightarrow> bool" where
  "boundary2d n m i j \<longleftrightarrow> i < n \<and> j < m \<and> (i = 0 \<or> i = n - 1 \<or> j = 0 \<or> j = m - 1)"

definition boundary3d :: "nat \<Rightarrow> nat \<Rightarrow> nat \<Rightarrow> nat \<Rightarrow> nat \<Rightarrow> nat \<Rightarrow> bool" where
  "boundary3d nx ny nz i j k \<longleftrightarrow> i < nx \<and> j < ny \<and> k < nz \<and>
     (i = 0 \<or> i = nx - 1 \<or> j = 0 \<or> j = ny - 1 \<or> k = 0 \<or> k = nz - 1)"

section \<open>Reciprocals of the diagonal\<close>

text \<open>\<open>1.0 / x\<close> on an array entry: an infinity, here \<open>None\<close>, when \<open>x\<close> is zero.\<close>

definition recip :: "real \<Rightarrow> real option" where
  "recip x = (if x = 0 then None else Some (1 / x))"

text \<open>
  \<open>inv_b = np.zeros_like(b); inv_b[1:-1, 1:-1] = 1.0 / b[1:-1, 1:-1]\<close> (relax2d) and
  its analogue with three axes (relax3d). The slices are taken from the shape of \<open>b\<close>.
\<close>

definition inv_interior2d :: "grid \<Rightarrow> real option list list" where
  "inv_interior2d b =
     map (\<lambda>i. map (\<lambda>j. if 1 \<le> i \<and> i + 1 < length b \<and> 1 \<le> j \<and> j + 1 < length (b ! i)
                        then recip (b ! i ! j) else Some 0)
                 [0..<length (b ! i)])
         [0..<length b]"

definition inv_interior3d :: "grid3 \<Rightarrow> real option list list list" where
  "inv_interior3d b =
     map (\<lambda>i. map (\<lambda>j. map (\<lambda>k. if 1 \<le> i \<and> i + 1 < length b \<and> 1 \<le> j \<and> j + 1 < length (b ! i)
                                    \<and> 1 \<le> k \<and> k + 1 < length (b ! i ! j)
                                 then recip (b ! i ! j ! k) else Some 0)
                          [0..<length (b ! i ! j)])
                 [0..<length (b ! i)])
         [0..<length b]"

text \<open>\<open>inv_b = 1.0 / b\<close> (lab2, relax): every entry of \<open>b\<close> is inverted.\<close>

definition inv_all2d :: "grid \<Rightarrow> real option list list" where
  "inv_all2d b = map (map recip) b"

text \<open>Whether computing a table of reciprocals divided by zero somewhere.\<close>

definition divided_by_zero2d :: "real option list list \<Rightarrow> bool" where
  "divided_by_zero2d inv_b \<longleftrightarrow> list_ex (list_ex (\<lambda>r. r = None)) inv_b"

definition divided_by_zero3d :: "real option list list list \<Rightarrow> bool" where
  "divided_by_zero3d inv_b \<longleftrightarrow> list_ex (list_ex (list_ex (\<lambda>r. r = None))) inv_b"

section \<open>The relaxation loop\<close>

text \<open>
  \<open>while (err > eps and it < max_iter) or it < min_iter: it += 1; ...\<close> The body
  is one sweep: it takes the arrays the loop keeps and returns them with the new error.
  relax2d has the literal \<open>100\<close> for \<open>min_iter\<close>. The bounds are Python integers.
\<close>

function sor_loop :: "('s \<Rightarrow> error + 's \<times> real) \<Rightarrow> real \<Rightarrow> int \<Rightarrow> int \<Rightarrow> 's \<times> real \<times> nat
    \<Rightarrow> error + 's \<times> real \<times> nat" where
  "sor_loop body eps max_iter min_iter (s, err, it) =
     (if (err > eps \<and> int it < max_iter) \<or> int it < min_iter then
        (case body s of
           Inl e \<Rightarrow> Inl e
         | Inr (s', err') \<Rightarrow> sor_loop body eps max_iter min_iter (s', err', it + 1))
      else Inr (s, err, it))"
  by pat_completeness auto
termination
  by (relation "measure (\<lambda>(body, eps, max_iter, min_iter, s, err, it). nat (max max_iter min_iter - int it))")
     auto

text \<open>\<open>while err > eps and it < max_iter: it += 1; ...\<close> (lab2, relax).\<close>

function relax_loop :: "('s \<Rightarrow> error + 's \<times> real) \<Rightarrow> real \<Rightarrow> int \<Rightarrow> 's \<times> real \<times> nat
    \<Rightarrow> error + 's \<times> real \<times> nat" where
  "relax_loop body eps max_iter (s, err, it) =
     (if err > eps \<and> int it < max_iter then
        (case body s of
           Inl e \<Rightarrow> Inl e
         | Inr (s', err') \<Rightarrow> relax_loop body eps max_iter (s', err', it + 1))
      else Inr (s, err, it))"
  by pat_completeness auto
termination
  by (relation "measure (\<lambda>(body, eps, max_iter, s, err, it). nat (max_iter - int it))") auto

declare sor_loop.simps [simp del] relax_loop.simps [simp del]

section \<open>relax2d (lab1-pde-modeling/solver.py)\<close>

text \<open>\<open>for i in range(n): for j in range(m): U_old[i, j] = U[i, j]\<close>\<close>

definition copy_field2d :: "nat \<Rightarrow> nat \<Rightarrow> grid \<Rightarrow> grid \<Rightarrow> grid" where
  "copy_field2d n m U U_old =
     fold (\<lambda>i. fold (\<lambda>j Uo. set2 Uo i j (U ! i ! j)) [0..<m]) [0..<n] U_old"

text \<open>The update of one interior node.\<close>

definition relax2d_node :: "grid \<Rightarrow> grid \<Rightarrow> grid \<Rightarrow> grid \<Rightarrow> real option list list \<Rightarrow> grid \<Rightarrow> real
    \<Rightarrow> nat \<Rightarrow> nat \<Rightarrow> grid \<Rightarrow> error + grid" where
  "relax2d_node ax ay cx cy inv_b d_rhs omega i j U =
     (case inv_b ! i ! j of
        None \<Rightarrow> Inl NonFinite
      | Some r \<Rightarrow>
          let t = (ax ! i ! j * U ! (i - 1) ! j + cx ! i ! j * U ! (i + 1) ! j +
                   ay ! i ! j * U ! i ! (j - 1) + cy ! i ! j * U ! i ! (j + 1) -
                   d_rhs ! i ! j) * r
          in Inr (set2 U i j (t * omega + U ! i ! j * (1 - omega))))"

text \<open>\<open>for i in range(1, n - 1): for j in range(1, m - 1): ...\<close>\<close>

definition relax2d_sweep :: "grid \<Rightarrow> grid \<Rightarrow> grid \<Rightarrow> grid \<Rightarrow> real option list list \<Rightarrow> grid
    \<Rightarrow> nat \<Rightarrow> nat \<Rightarrow> real \<Rightarrow> grid \<Rightarrow> error + grid" where
  "relax2d_sweep ax ay cx cy inv_b d_rhs n m omega =
     for_each (\<lambda>i. for_each (\<lambda>j. relax2d_node ax ay cx cy inv_b d_rhs omega i j) [1..<m - 1])
       [1..<n - 1]"

text \<open>The error of a sweep: \<open>err = 0.0\<close>, then the largest \<open>abs(U[i, j] - U_old[i, j])\<close>.\<close>

definition max_diff2d :: "nat \<Rightarrow> nat \<Rightarrow> grid \<Rightarrow> grid \<Rightarrow> real" where
  "max_diff2d n m U U_old =
     fold (\<lambda>i. fold (\<lambda>j err. let diff = \<bar>U ! i ! j - U_old ! i ! j\<bar>
                              in if diff > err then diff else err) [1..<m - 1])
       [1..<n - 1] 0"

text \<open>The body of the loop, on the pair \<open>(U, U_old)\<close>.\<close>

definition relax2d_iteration :: "grid \<Rightarrow> grid \<Rightarrow> grid \<Rightarrow> grid \<Rightarrow> real option list list \<Rightarrow> grid
    \<Rightarrow> nat \<Rightarrow> nat \<Rightarrow> real \<Rightarrow> grid \<times> grid \<Rightarrow> error + (grid \<times> grid) \<times> real" where
  "relax2d_iteration ax ay cx cy inv_b d_rhs n m omega s =
     (case s of (U, U_old) \<Rightarrow>
        let U_old' = copy_field2d n m U U_old in
        case relax2d_sweep ax ay cx cy inv_b d_rhs n m omega U of
          Inl e \<Rightarrow> Inl e
        | Inr U' \<Rightarrow> Inr ((U', U_old'), max_diff2d n m U' U_old'))"

text \<open>
  The run of relax2d: the arrays, the last error and the number of sweeps when the
  loop ends. The function itself returns \<open>U\<close> and prints the other two.
\<close>

definition relax2d_run :: "grid \<Rightarrow> grid \<Rightarrow> grid \<Rightarrow> grid \<Rightarrow> grid \<Rightarrow> grid \<Rightarrow> nat \<Rightarrow> nat \<Rightarrow> grid
    \<Rightarrow> real \<Rightarrow> real \<Rightarrow> int \<Rightarrow> error + (grid \<times> grid) \<times> real \<times> nat" where
  "relax2d_run ax ay cx cy b d_rhs n m U_initial omega eps max_iter =
     sor_loop (relax2d_iteration ax ay cx cy (inv_interior2d b) d_rhs n m omega)
       eps max_iter 100 ((U_initial, U_initial), 1, 0)"

definition relax2d :: "grid \<Rightarrow> grid \<Rightarrow> grid \<Rightarrow> grid \<Rightarrow> grid \<Rightarrow> grid \<Rightarrow> nat \<Rightarrow> nat \<Rightarrow> grid
    \<Rightarrow> real \<Rightarrow> real \<Rightarrow> int \<Rightarrow> error + grid" where
  "relax2d ax ay cx cy b d_rhs n m U_initial omega eps max_iter =
     (case relax2d_run ax ay cx cy b d_rhs n m U_initial omega eps max_iter of
        Inl e \<Rightarrow> Inl e
      | Inr ((U, U_old), err, it) \<Rightarrow> Inr U)"

section \<open>relax (lab2-standing-waves/src/solver.py)\<close>

text \<open>The update of one interior node; the error is accumulated inside the sweep.\<close>

definition relax_node :: "grid \<Rightarrow> grid \<Rightarrow> grid \<Rightarrow> grid \<Rightarrow> real option list list \<Rightarrow> grid \<Rightarrow> real
    \<Rightarrow> nat \<Rightarrow> nat \<Rightarrow> grid \<times> real \<Rightarrow> error + grid \<times> real" where
  "relax_node ax ay cx cy inv_b d_rhs alfa i j s =
     (case s of (U, err) \<Rightarrow>
        case inv_b ! i ! j of
          None \<Rightarrow> Inl NonFinite
        | Some r \<Rightarrow>
            let t = (ax ! i ! j * U ! (i - 1) ! j + cx ! i ! j * U ! (i + 1) ! j +
                     ay ! i ! j * U ! i ! (j - 1) + cy ! i ! j * U ! i ! (j + 1) -
                     d_rhs ! i ! j) * r;
                deviation = \<bar>U ! i ! j - t\<bar>;
                err' = max err deviation
            in Inr (set2 U i j (t * alfa + U ! i ! j * (1 - alfa)), err'))"

text \<open>The body of the loop: \<open>err = 0.0\<close>, then the sweep.\<close>

definition relax_iteration :: "grid \<Rightarrow> grid \<Rightarrow> grid \<Rightarrow> grid \<Rightarrow> real option list list \<Rightarrow> grid
    \<Rightarrow> nat \<Rightarrow> nat \<Rightarrow> real \<Rightarrow> grid \<Rightarrow> error + grid \<times> real" where
  "relax_iteration ax ay cx cy inv_b d_rhs n m alfa U =
     for_each (\<lambda>i. for_each (\<lambda>j. relax_node ax ay cx cy inv_b d_rhs alfa i j) [1..<m - 1])
       [1..<n - 1] (U, 0)"

definition relax_run :: "grid \<Rightarrow> grid \<Rightarrow> grid \<Rightarrow> grid \<Rightarrow> grid \<Rightarrow> grid \<Rightarrow> nat \<Rightarrow> nat \<Rightarrow> grid
    \<Rightarrow> real \<Rightarrow> real \<Rightarrow> int \<Rightarrow> error + grid \<times> real \<times> nat" where
  "relax_run ax ay cx cy b d_rhs n m U_initial alfa eps max_iter =
     relax_loop (relax_iteration ax ay cx cy (inv_all2d b) d_rhs n m alfa)
       eps max_iter (U_initial, 1, 0)"

definition relax :: "grid \<Rightarrow> grid \<Rightarrow> grid \<Rightarrow> grid \<Rightarrow> grid \<Rightarrow> grid \<Rightarrow> nat \<Rightarrow> nat \<Rightarrow> grid
    \<Rightarrow> real \<Rightarrow> real \<Rightarrow> int \<Rightarrow> error + grid" where
  "relax ax ay cx cy b d_rhs n m U_initial alfa eps max_iter =
     (case relax_run ax ay cx cy b d_rhs n m U_initial alfa eps max_iter of
        Inl e \<Rightarrow> Inl e
      | Inr (U, err, it) \<Rightarrow> Inr U)"

section \<open>relax3d (lab1-pde-modeling/solver.py)\<close>

definition copy_field3d :: "nat \<Rightarrow> nat \<Rightarrow> nat \<Rightarrow> grid3 \<Rightarrow> grid3 \<Rightarrow> grid3" where
  "copy_field3d nx ny nz U U_old =
     fold (\<lambda>i. fold (\<lambda>j. fold (\<lambda>k Uo. set3 Uo i j k (U ! i ! j ! k)) [0..<nz]) [0..<ny])
       [0..<nx] U_old"

definition relax3d_node :: "grid3 \<Rightarrow> grid3 \<Rightarrow> grid3 \<Rightarrow> grid3 \<Rightarrow> grid3 \<Rightarrow> grid3
    \<Rightarrow> real option list list list \<Rightarrow> grid3 \<Rightarrow> real \<Rightarrow> nat \<Rightarrow> nat \<Rightarrow> nat \<Rightarrow> grid3 \<Rightarrow> error + grid3" where
  "relax3d_node ax ay az cx cy cz inv_b d_rhs omega i j k U =
     (case inv_b ! i ! j ! k of
        None \<Rightarrow> Inl NonFinite
      | Some r \<Rightarrow>
          let t = (ax ! i ! j ! k * U ! (i - 1) ! j ! k + cx ! i ! j ! k * U ! (i + 1) ! j ! k +
                   ay ! i ! j ! k * U ! i ! (j - 1) ! k + cy ! i ! j ! k * U ! i ! (j + 1) ! k +
                   az ! i ! j ! k * U ! i ! j ! (k - 1) + cz ! i ! j ! k * U ! i ! j ! (k + 1) -
                   d_rhs ! i ! j ! k) * r
          in Inr (set3 U i j k (omega * t + (1 - omega) * U ! i ! j ! k)))"

definition relax3d_sweep :: "grid3 \<Rightarrow> grid3 \<Rightarrow> grid3 \<Rightarrow> grid3 \<Rightarrow> grid3 \<Rightarrow> grid3
    \<Rightarrow> real option list list list \<Rightarrow> grid3 \<Rightarrow> nat \<Rightarrow> nat \<Rightarrow> nat \<Rightarrow> real \<Rightarrow> grid3 \<Rightarrow> error + grid3" where
  "relax3d_sweep ax ay az cx cy cz inv_b d_rhs nx ny nz omega =
     for_each (\<lambda>i. for_each (\<lambda>j. for_each
         (\<lambda>k. relax3d_node ax ay az cx cy cz inv_b d_rhs omega i j k) [1..<nz - 1]) [1..<ny - 1])
       [1..<nx - 1]"

definition max_diff3d :: "nat \<Rightarrow> nat \<Rightarrow> nat \<Rightarrow> grid3 \<Rightarrow> grid3 \<Rightarrow> real" where
  "max_diff3d nx ny nz U U_old =
     fold (\<lambda>i. fold (\<lambda>j. fold (\<lambda>k err. let diff = \<bar>U ! i ! j ! k - U_old ! i ! j ! k\<bar>
                                       in if diff > err then diff else err) [1..<nz - 1])
                 [1..<ny - 1])
       [1..<nx - 1] 0"

definition relax3d_iteration :: "grid3 \<Rightarrow> grid3 \<Rightarrow> grid3 \<Rightarrow> grid3 \<Rightarrow> grid3 \<Rightarrow> grid3
    \<Rightarrow> real option list list list \<Rightarrow> grid3 \<Rightarrow> nat \<Rightarrow> nat \<Rightarrow> nat \<Rightarrow> real \<Rightarrow> grid3 \<times> grid3
    \<Rightarrow> error + (grid3 \<times> grid3) \<times> real" where
  "relax3d_iteration ax ay az cx cy cz inv_b d_rhs nx ny nz omega s =
     (case s of (U, U_old) \<Rightarrow>
        let U_old' = copy_field3d nx ny nz U U_old in
        case relax3d_sweep ax ay az cx cy cz inv_b d_rhs nx ny nz omega U of
          Inl e \<Rightarrow> Inl e
        | Inr U' \<Rightarrow> Inr ((U', U_old'), max_diff3d nx ny nz U' U_old'))"

definition relax3d_run :: "grid3 \<Rightarrow> grid3 \<Rightarrow> grid3 \<Rightarrow> grid3 \<Rightarrow> grid3 \<Rightarrow> grid3 \<Rightarrow> grid3 \<Rightarrow> grid3
    \<Rightarrow> nat \<Rightarrow> nat \<Rightarrow> nat \<Rightarrow> grid3 \<Rightarrow> real \<Rightarrow> real \<Rightarrow> int \<Rightarrow> int
    \<Rightarrow> error + (grid3 \<times> grid3) \<times> real \<times> nat" where
  "relax3d_run ax ay az cx cy cz b d_rhs nx ny nz U_initial omega eps max_iter min_iter =
     sor_loop (relax3d_iteration ax ay az cx cy cz (inv_interior3d b) d_rhs nx ny nz omega)
       eps max_iter min_iter ((U_initial, U_initial), 1, 0)"

definition relax3d :: "grid3 \<Rightarrow> grid3 \<Rightarrow> grid3 \<Rightarrow> grid3 \<Rightarrow> grid3 \<Rightarrow> grid3 \<Rightarrow> grid3 \<Rightarrow> grid3
    \<Rightarrow> nat \<Rightarrow> nat \<Rightarrow> nat \<Rightarrow> grid3 \<Rightarrow> real \<Rightarrow> real \<Rightarrow> int \<Rightarrow> int \<Rightarrow> error + grid3" where
  "relax3d ax ay az cx cy cz b d_rhs nx ny nz U_initial omega eps max_iter min_iter =
     (case relax3d_run ax ay az cx cy cz b d_rhs nx ny nz U_initial omega eps max_iter min_iter of
        Inl e \<Rightarrow> Inl e
      | Inr ((U, U_old), err, it) \<Rightarrow> Inr U)"

section \<open>Array indexing outside the compiled kernels\<close>

text \<open>
  The simulation driver is interpreted Python on numpy arrays: an index is checked, a
  negative one counts from the end, and a failure raises \<open>IndexError\<close>. An array
  without rows is taken to have no columns. Arrays combined entry by entry have the
  same shape, as they do in the driver (a mismatch is \<open>ValueError\<close> here).
\<close>

definition bind_err :: "error + 'a \<Rightarrow> ('a \<Rightarrow> error + 'b) \<Rightarrow> error + 'b" where
  "bind_err r f = (case r of Inl e \<Rightarrow> Inl e | Inr x \<Rightarrow> f x)"

definition py_index :: "nat \<Rightarrow> int \<Rightarrow> error + nat" where
  "py_index len i =
     (if 0 \<le> i \<and> i < int len then Inr (nat i)
      else if - int len \<le> i \<and> i < 0 then Inr (nat (i + int len))
      else Inl IndexError)"

definition ncols :: "'a list list \<Rightarrow> nat" where
  "ncols A = (case A of [] \<Rightarrow> 0 | row # _ \<Rightarrow> length row)"

text \<open>\<open>A[i, j] = v\<close> and \<open>A[i, j]\<close>\<close>

definition assign2 :: "grid \<Rightarrow> int \<Rightarrow> int \<Rightarrow> real \<Rightarrow> error + grid" where
  "assign2 A i j v =
     bind_err (py_index (length A) i) (\<lambda>i'.
     bind_err (py_index (ncols A) j) (\<lambda>j'. Inr (set2 A i' j' v)))"

definition item2 :: "grid \<Rightarrow> int \<Rightarrow> int \<Rightarrow> error + real" where
  "item2 A i j =
     bind_err (py_index (length A) i) (\<lambda>i'.
     bind_err (py_index (ncols A) j) (\<lambda>j'. Inr (A ! i' ! j')))"

text \<open>\<open>A[i, :] = v\<close>, \<open>A[:, j] = v\<close>\<close>

definition set_row :: "grid \<Rightarrow> int \<Rightarrow> real \<Rightarrow> error + grid" where
  "set_row A i v = bind_err (py_index (length A) i) (\<lambda>i'. Inr (A[i' := map (\<lambda>_. v) (A ! i')]))"

definition set_col :: "grid \<Rightarrow> int \<Rightarrow> real \<Rightarrow> error + grid" where
  "set_col A j v = bind_err (py_index (ncols A) j) (\<lambda>j'. Inr (map (\<lambda>row. row[j' := v]) A))"

text \<open>\<open>A[i, :] = A[k, :]\<close>, \<open>A[:, j] = A[:, k]\<close>\<close>

definition copy_row :: "grid \<Rightarrow> int \<Rightarrow> int \<Rightarrow> error + grid" where
  "copy_row A i k =
     bind_err (py_index (length A) k) (\<lambda>k'.
     bind_err (py_index (length A) i) (\<lambda>i'. Inr (A[i' := A ! k'])))"

definition copy_col :: "grid \<Rightarrow> int \<Rightarrow> int \<Rightarrow> error + grid" where
  "copy_col A j k =
     bind_err (py_index (ncols A) k) (\<lambda>k'.
     bind_err (py_index (ncols A) j) (\<lambda>j'. Inr (map (\<lambda>row. row[j' := row ! k']) A)))"

text \<open>\<open>B[i, :] -= A[i, :]\<close>, \<open>B[:, j] -= A[:, j]\<close>\<close>

definition sub_row :: "grid \<Rightarrow> grid \<Rightarrow> int \<Rightarrow> error + grid" where
  "sub_row B A i =
     bind_err (py_index (length B) i) (\<lambda>i'.
     bind_err (py_index (length A) i) (\<lambda>k'.
       if ncols A \<noteq> ncols B then Inl ValueError
       else Inr (B[i' := map2 (\<lambda>x y. x - y) (B ! i') (A ! k')])))"

definition sub_col :: "grid \<Rightarrow> grid \<Rightarrow> int \<Rightarrow> error + grid" where
  "sub_col B A j =
     bind_err (py_index (ncols B) j) (\<lambda>j'.
     bind_err (py_index (ncols A) j) (\<lambda>k'.
       if length A \<noteq> length B then Inl ValueError
       else Inr (map2 (\<lambda>rb ra. rb[j' := rb ! j' - ra ! k']) B A)))"

section \<open>The experiment configuration (lab1-standing-waves/src/config.py)\<close>

text \<open>
  The configuration dictionary, one field for each key. The base dictionary has no
  key \<open>boundary_condition\<close> (the empty string here); every branch that returns sets it.
\<close>

record config =
  cfg_nx :: nat
  cfg_ny :: nat
  cfg_Lx :: real
  cfg_Ly :: real
  cfg_amplitude :: real
  cfg_frequency_k :: real
  cfg_dt :: real
  cfg_max_steps :: nat
  cfg_relax_alfa :: real
  cfg_relax_eps :: real
  cfg_relax_max_iter :: int
  cfg_experiment_type :: string
  cfg_light_k :: int
  cfg_ds :: int
  cfg_boundary_condition :: string


section \<open>The time-step assembler and the driver (lab1-standing-waves/src/simulation.py)\<close>

type_synonym coeffs = "grid \<times> grid \<times> grid \<times> grid \<times> grid \<times> grid"

text \<open>
  The row of one source node:
  \<open>ax[I, J], ay[I, J], cx[I, J], cy[I, J] = 0.0, 0.0, 0.0, 0.0; b[I, J] = 1.0;
  d_rhs[I, J] = source_value\<close>. The six arrays are \<open>(ax, ay, cx, cy, b, d_rhs)\<close>.
\<close>

definition set_source_node :: "int \<Rightarrow> int \<Rightarrow> real \<Rightarrow> coeffs \<Rightarrow> error + coeffs" where
  "set_source_node I J source_value co =
     (case co of (ax, ay, cx, cy, b, d_rhs) \<Rightarrow>
        bind_err (assign2 ax I J 0) (\<lambda>ax'.
        bind_err (assign2 ay I J 0) (\<lambda>ay'.
        bind_err (assign2 cx I J 0) (\<lambda>cx'.
        bind_err (assign2 cy I J 0) (\<lambda>cy'.
        bind_err (assign2 b I J 1) (\<lambda>b'.
        bind_err (assign2 d_rhs I J source_value) (\<lambda>d_rhs'.
          Inr (ax', ay', cx', cy', b', d_rhs'))))))))"

definition source_value :: "config \<Rightarrow> nat \<Rightarrow> real" where
  "source_value config k =
     cfg_amplitude config * sin (pi * cfg_frequency_k config * real k * cfg_dt config)"

definition set_sources :: "nat \<Rightarrow> coeffs \<Rightarrow> config \<Rightarrow> error + coeffs" where
  "set_sources k co config =
     (let nx = cfg_nx config; ny = cfg_ny config;
          experiment_type = cfg_experiment_type config
      in if experiment_type = ''FREE_CENTER'' \<or> experiment_type = ''CLAMPED_CENTER'' then
           set_source_node (int (nx div 2)) (int (ny div 2)) (source_value config k) co
         else if experiment_type = ''FREE_TWO_GENERATORS'' then
           bind_err (set_source_node 1 (int (ny div 2)) (source_value config k) co)
             (set_source_node (int nx - 2) (int (ny div 2)) (source_value config k))
         else Inr co)"

text \<open>The five arrays are \<open>(b, ax, ay, cx, cy)\<close>, in the order of the parameters.\<close>

type_synonym neumann_coeffs = "grid \<times> grid \<times> grid \<times> grid \<times> grid"

definition apply_neumann_coeff_mods :: "neumann_coeffs \<Rightarrow> nat \<Rightarrow> nat \<Rightarrow> error + neumann_coeffs" where
  "apply_neumann_coeff_mods co nx ny =
     (case co of (b, ax, ay, cx, cy) \<Rightarrow>
        bind_err (sub_col b ay 1) (\<lambda>b1.
        bind_err (set_col ay 1 0) (\<lambda>ay'.
        bind_err (sub_col b1 cy (int ny - 2)) (\<lambda>b2.
        bind_err (set_col cy (int ny - 2) 0) (\<lambda>cy'.
        bind_err (sub_row b2 ax 1) (\<lambda>b3.
        bind_err (set_row ax 1 0) (\<lambda>ax'.
        bind_err (sub_row b3 cx (int nx - 2)) (\<lambda>b4.
        bind_err (set_row cx (int nx - 2) 0) (\<lambda>cx'.
          Inr (b4, ax', ay', cx', cy'))))))))))"

definition average_into :: "grid \<Rightarrow> int \<Rightarrow> int \<Rightarrow> int \<Rightarrow> int \<Rightarrow> int \<Rightarrow> int \<Rightarrow> error + grid" where
  "average_into U i j i1 j1 i2 j2 =
     bind_err (item2 U i1 j1) (\<lambda>p.
     bind_err (item2 U i2 j2) (\<lambda>q. assign2 U i j (0.5 * (p + q))))"

definition copy_neumann_boundaries :: "grid \<Rightarrow> nat \<Rightarrow> nat \<Rightarrow> error + grid" where
  "copy_neumann_boundaries U nx ny =
     bind_err (copy_col U 0 1) (\<lambda>U1.
     bind_err (copy_col U1 (int ny - 1) (int ny - 2)) (\<lambda>U2.
     bind_err (copy_row U2 0 1) (\<lambda>U3.
     bind_err (copy_row U3 (int nx - 1) (int nx - 2)) (\<lambda>U4.
     bind_err (average_into U4 0 0 1 0 0 1) (\<lambda>U5.
     bind_err (average_into U5 (int nx - 1) (int ny - 1) (int nx - 2) (int ny - 1)
                 (int nx - 1) (int ny - 2)) (\<lambda>U6.
     bind_err (average_into U6 0 (int ny - 1) 0 (int ny - 2) 1 (int ny - 1)) (\<lambda>U7.
     average_into U7 (int nx - 1) 0 (int nx - 1) 1 (int nx - 2) 0)))))))"

text \<open>\<open>U[0, :], U[-1, :], U[:, 0], U[:, -1] = 0.0, 0.0, 0.0, 0.0\<close>\<close>

definition dirichlet_boundaries :: "grid \<Rightarrow> error + grid" where
  "dirichlet_boundaries U =
     bind_err (set_row U 0 0) (\<lambda>U1.
     bind_err (set_row U1 (- 1) 0) (\<lambda>U2.
     bind_err (set_col U2 0 0) (\<lambda>U3. set_col U3 (- 1) 0)))"

text \<open>\<open>np.zeros((nx, ny))\<close>, a constant array, \<open>np.linspace(0.0, L, n)\<close>\<close>

definition full :: "nat \<Rightarrow> nat \<Rightarrow> real \<Rightarrow> grid" where
  "full nx ny v = replicate nx (replicate ny v)"

definition linspace :: "real \<Rightarrow> nat \<Rightarrow> real list" where
  "linspace L n = (if n = 1 then [0] else map (\<lambda>i. real i * (L / (real n - 1))) [0..<n])"

text \<open>\<open>A[1:nx - 1, 1:ny - 1] = f\<close>, entry by entry.\<close>

definition assign_interior :: "nat \<Rightarrow> nat \<Rightarrow> (nat \<Rightarrow> nat \<Rightarrow> real) \<Rightarrow> grid \<Rightarrow> grid" where
  "assign_interior nx ny f A =
     map (\<lambda>i. map (\<lambda>j. if 1 \<le> i \<and> i + 1 < nx \<and> 1 \<le> j \<and> j + 1 < ny then f i j else A ! i ! j)
                 [0..<length (A ! i)])
         [0..<length A]"

text \<open>The right-hand side of one time step.\<close>

definition assemble_rhs :: "nat \<Rightarrow> nat \<Rightarrow> real \<Rightarrow> real \<Rightarrow> real \<Rightarrow> grid \<Rightarrow> grid \<Rightarrow> grid" where
  "assemble_rhs nx ny dt hx hy U0 U1 =
     assign_interior nx ny
       (\<lambda>i j. (- 2 * U1 ! i ! j + U0 ! i ! j) / dt ^ 2
              - 0.5 * ((U0 ! (i - 1) ! j - 2 * U0 ! i ! j + U0 ! (i + 1) ! j) / hx ^ 2
                     + (U0 ! i ! (j - 1) - 2 * U0 ! i ! j + U0 ! i ! (j + 1)) / hy ^ 2))
       (full nx ny 0)"

definition grid_add :: "grid \<Rightarrow> grid \<Rightarrow> grid" where
  "grid_add A B = map2 (map2 (+)) A B"

text \<open>
  One round of the time loop, on the layers \<open>U0\<close>, \<open>U1\<close> and the stack of stored
  fields (\<open>U_stack[:, :, k - 1]\<close> is entry \<open>k - 1\<close> of the list).
\<close>

definition simulation_step :: "config \<Rightarrow> real \<Rightarrow> real \<Rightarrow> grid \<Rightarrow> grid \<Rightarrow> grid \<Rightarrow> grid \<Rightarrow> grid
    \<Rightarrow> nat \<Rightarrow> grid \<times> grid \<times> grid list \<Rightarrow> error + grid \<times> grid \<times> grid list" where
  "simulation_step config hx hy ax0 ay0 cx0 cy0 b0 k s =
     (case s of (U0, U1, U_stack) \<Rightarrow>
        let nx = cfg_nx config; ny = cfg_ny config; dt = cfg_dt config;
            d_rhs0 = assemble_rhs nx ny dt hx hy U0 U1
        in
        bind_err (set_sources k (ax0, ay0, cx0, cy0, b0, d_rhs0) config)
          (\<lambda>(ax, ay, cx, cy, b, d_rhs).
        bind_err (if cfg_boundary_condition config = ''neumann''
                  then apply_neumann_coeff_mods (b, ax, ay, cx, cy) nx ny
                  else Inr (b, ax, ay, cx, cy))
          (\<lambda>(b, ax, ay, cx, cy).
        bind_err (relax ax ay cx cy b d_rhs nx ny U1 (cfg_relax_alfa config)
                    (cfg_relax_eps config) (cfg_relax_max_iter config))
          (\<lambda>U.
        bind_err (if cfg_boundary_condition config = ''neumann''
                  then copy_neumann_boundaries U nx ny
                  else if cfg_boundary_condition config = ''dirichlet''
                  then dirichlet_boundaries U
                  else Inr U)
          (\<lambda>U'. Inr (U1, U', U_stack[k - 1 := U']))))))"

record sim_result =
  res_U_stack :: "grid list"
  res_x :: "real list"
  res_y :: "real list"
  res_config :: config

definition run_simulation :: "config \<Rightarrow> error + sim_result" where
  "run_simulation config =
     (let nx = cfg_nx config; ny = cfg_ny config; Lx = cfg_Lx config; Ly = cfg_Ly config;
          dt = cfg_dt config; max_steps = cfg_max_steps config
      in
      if real nx - 1 = 0 then Inl ZeroDivisionError else
      if real ny - 1 = 0 then Inl ZeroDivisionError else
      let hx = Lx / (real nx - 1); hy = Ly / (real ny - 1);
          x = linspace Lx nx; y = linspace Ly ny;
          U = full nx ny 0; U0 = U; dU = U;
          U1 = assign_interior nx ny (\<lambda>i j. U0 ! i ! j + dt * dU ! i ! j) U
      in
      if hx ^ 2 = 0 then Inl ZeroDivisionError else
      if hy ^ 2 = 0 then Inl ZeroDivisionError else
      if dt ^ 2 = 0 then Inl ZeroDivisionError else
      let ax0 = full nx ny (0.5 / hx ^ 2 * 1); cx0 = ax0;
          ay0 = full nx ny (0.5 / hy ^ 2 * 1); cy0 = ay0;
          b0 = map (map (\<lambda>v. v + 1 / dt ^ 2)) (grid_add (grid_add (grid_add ax0 cx0) ay0) cy0);
          U_stack = replicate max_steps (full nx ny 0)
      in
      bind_err (for_each (simulation_step config hx hy ax0 ay0 cx0 cy0 b0)
                  [1..<max_steps + 1] (U0, U1, U_stack))
        (\<lambda>(U0', U1', U_stack').
           Inr \<lparr>res_U_stack = U_stack', res_x = x, res_y = y, res_config = config\<rparr>))"

text \<open>
  A field as a function from nodes to values, and a sweep over a list of nodes on it:
  each node in turn receives a value computed from the field as it then is. The
  loops of the solvers are compared with this in the proofs.
\<close>

definition gs_sweep :: "(('p \<Rightarrow> real) \<Rightarrow> 'p \<Rightarrow> real) \<Rightarrow> 'p list \<Rightarrow> ('p \<Rightarrow> real) \<Rightarrow> 'p \<Rightarrow> real" where
  "gs_sweep G ps v = fold (\<lambda>p v. v(p := G v p)) ps v"

text \<open>The field of a grid.\<close>

definition field2d :: "grid \<Rightarrow> nat \<times> nat \<Rightarrow> real" where
  "field2d U = (\<lambda>(i, j). U ! i ! j)"

text \<open>
  The Gauss-Seidel value \<open>t\<close> of a node and its over-relaxed value
  \<open>omega * t + (1 - omega) * old\<close>, on a field.
\<close>

definition gs_target2d :: "grid \<Rightarrow> grid \<Rightarrow> grid \<Rightarrow> grid \<Rightarrow> grid \<Rightarrow> grid
    \<Rightarrow> (nat \<times> nat \<Rightarrow> real) \<Rightarrow> nat \<times> nat \<Rightarrow> real" where
  "gs_target2d ax ay cx cy b d_rhs v = (\<lambda>(i, j).
     (ax ! i ! j * v (i - 1, j) + cx ! i ! j * v (i + 1, j) +
      ay ! i ! j * v (i, j - 1) + cy ! i ! j * v (i, j + 1) - d_rhs ! i ! j) / b ! i ! j)"

definition sor2d :: "grid \<Rightarrow> grid \<Rightarrow> grid \<Rightarrow> grid \<Rightarrow> grid \<Rightarrow> grid \<Rightarrow> real
    \<Rightarrow> (nat \<times> nat \<Rightarrow> real) \<Rightarrow> nat \<times> nat \<Rightarrow> real" where
  "sor2d ax ay cx cy b d_rhs omega v p =
     omega * gs_target2d ax ay cx cy b d_rhs v p + (1 - omega) * v p"

text \<open>The arrays and the error after \<open>k\<close> rounds of the loop body.\<close>

fun sor_iterate :: "('s \<Rightarrow> error + 's \<times> real) \<Rightarrow> nat \<Rightarrow> 's \<times> real \<Rightarrow> error + 's \<times> real" where
  "sor_iterate body 0 se = Inr se"
| "sor_iterate body (Suc k) se = (case body (fst se) of Inl x \<Rightarrow> Inl x | Inr se' \<Rightarrow> sor_iterate body k se')"

text \<open>
  The stopping rule in the words of the specification: the error is at most
  \<open>eps\<close> and at least \<open>min_iter\<close> sweeps are done, or \<open>max_iter\<close> sweeps are done.
\<close>

definition stop_rule :: "real \<Rightarrow> int \<Rightarrow> int \<Rightarrow> real \<Rightarrow> nat \<Rightarrow> bool" where
  "stop_rule eps max_iter min_iter err it \<longleftrightarrow> (err \<le> eps \<and> min_iter \<le> int it) \<or> int it = max_iter"

text \<open>The same for three axes.\<close>

definition field3d :: "grid3 \<Rightarrow> nat \<times> nat \<times> nat \<Rightarrow> real" where
  "field3d U = (\<lambda>(i, j, k). U ! i ! j ! k)"

definition gs_target3d :: "grid3 \<Rightarrow> grid3 \<Rightarrow> grid3 \<Rightarrow> grid3 \<Rightarrow> grid3 \<Rightarrow> grid3 \<Rightarrow> grid3 \<Rightarrow> grid3
    \<Rightarrow> (nat \<times> nat \<times> nat \<Rightarrow> real) \<Rightarrow> nat \<times> nat \<times> nat \<Rightarrow> real" where
  "gs_target3d ax ay az cx cy cz b d_rhs v = (\<lambda>(i, j, k).
     (ax ! i ! j ! k * v (i - 1, j, k) + cx ! i ! j ! k * v (i + 1, j, k) +
      ay ! i ! j ! k * v (i, j - 1, k) + cy ! i ! j ! k * v (i, j + 1, k) +
      az ! i ! j ! k * v (i, j, k - 1) + cz ! i ! j ! k * v (i, j, k + 1) -
      d_rhs ! i ! j ! k) / b ! i ! j ! k)"

definition sor3d :: "grid3 \<Rightarrow> grid3 \<Rightarrow> grid3 \<Rightarrow> grid3 \<Rightarrow> grid3 \<Rightarrow> grid3 \<Rightarrow> grid3 \<Rightarrow> grid3 \<Rightarrow> real
    \<Rightarrow> (nat \<times> nat \<times> nat \<Rightarrow> real) \<Rightarrow> nat \<times> nat \<times> nat \<Rightarrow> real" where
  "sor3d ax ay az cx cy cz b d_rhs omega v p =
     omega * gs_target3d ax ay az cx cy cz b d_rhs v p + (1 - omega) * v p"

text \<open>
  Sequential Gauss-Seidel with over-relaxation, in the words of the specification:
  every interior node of the new field \<open>U'\<close> is \<open>omega * t + (1 - omega) * old\<close>,
  where \<open>t\<close> takes the neighbours at lower indices from \<open>U'\<close> (this sweep) and the
  neighbours at higher indices from \<open>U\<close> (the sweep before).
\<close>

definition gauss_seidel2d :: "grid \<Rightarrow> grid \<Rightarrow> grid \<Rightarrow> grid \<Rightarrow> grid \<Rightarrow> grid \<Rightarrow> nat \<Rightarrow> nat \<Rightarrow> real
    \<Rightarrow> grid \<Rightarrow> grid \<Rightarrow> bool" where
  "gauss_seidel2d ax ay cx cy b d_rhs n m omega U U' \<longleftrightarrow>
     (\<forall>(i, j)\<in>set (interior2d n m).
        U' ! i ! j =
          omega * ((ax ! i ! j * U' ! (i - 1) ! j + cx ! i ! j * U ! (i + 1) ! j +
                    ay ! i ! j * U' ! i ! (j - 1) + cy ! i ! j * U ! i ! (j + 1) -
                    d_rhs ! i ! j) / b ! i ! j)
          + (1 - omega) * U ! i ! j)"


text \<open>
  Small inputs for the witnesses: grids with three nodes on every axis, hence one
  interior node. The diagonal is zero on the whole boundary ring.
\<close>

definition ex_ones2 :: grid where
  "ex_ones2 = [[1, 1, 1], [1, 1, 1], [1, 1, 1]]"

definition ex_zero2 :: grid where
  "ex_zero2 = [[0, 0, 0], [0, 0, 0], [0, 0, 0]]"

definition ex_b2 :: grid where
  "ex_b2 = [[0, 0, 0], [0, 4, 0], [0, 0, 0]]"

definition ex_U2 :: grid where
  "ex_U2 = [[1, 1, 1], [1, 0, 1], [1, 1, 1]]"

definition ex_ones3 :: grid3 where
  "ex_ones3 =
    [[[1, 1, 1], [1, 1, 1], [1, 1, 1]],
     [[1, 1, 1], [1, 1, 1], [1, 1, 1]],
     [[1, 1, 1], [1, 1, 1], [1, 1, 1]]]"

definition ex_zero3 :: grid3 where
  "ex_zero3 =
    [[[0, 0, 0], [0, 0, 0], [0, 0, 0]],
     [[0, 0, 0], [0, 0, 0], [0, 0, 0]],
     [[0, 0, 0], [0, 0, 0], [0, 0, 0]]]"

definition ex_b3 :: grid3 where
  "ex_b3 =
    [[[0, 0, 0], [0, 0, 0], [0, 0, 0]],
     [[0, 0, 0], [0, 6, 0], [0, 0, 0]],
     [[0, 0, 0], [0, 0, 0], [0, 0, 0]]]"

definition ex_U3 :: grid3 where
  "ex_U3 =
    [[[1, 1, 1], [1, 1, 1], [1, 1, 1]],
     [[1, 1, 1], [1, 0, 1], [1, 1, 1]],
     [[1, 1, 1], [1, 1, 1], [1, 1, 1]]]"

text \<open>
  A run of the loop from the arrays \<open>s0\<close> (with the initial error \<open>1.0\<close>) stops by
  the rule: it returns after \<open>N \<le> max_iter\<close> sweeps with the state these sweeps
  produce, the stopping rule holds then, and it held after none of the fewer sweeps.
\<close>

definition stops_by_rule :: "('s \<Rightarrow> error + 's \<times> real) \<Rightarrow> real \<Rightarrow> int \<Rightarrow> int \<Rightarrow> 's
    \<Rightarrow> error + 's \<times> real \<times> nat \<Rightarrow> bool" where
  "stops_by_rule body eps max_iter min_iter s0 result \<longleftrightarrow>
     (case result of
        Inl _ \<Rightarrow> False
      | Inr (s, e, N) \<Rightarrow>
          int N \<le> max_iter \<and> sor_iterate body N (s0, 1) = Inr (s, e) \<and>
          stop_rule eps max_iter min_iter e N \<and>
          (\<forall>k<N. case sor_iterate body k (s0, 1) of
                    Inl _ \<Rightarrow> True
                  | Inr (s', e') \<Rightarrow> \<not> stop_rule eps max_iter min_iter e' k))"

text \<open>
  The pre-sweep-snapshot max-norm of the specification: the largest
  \<open>|new - old|\<close> over the interior nodes, \<open>old\<close> being the field before the sweep
  (\<open>0\<close> when there is no interior node).
\<close>

definition snapshot_error2d :: "nat \<Rightarrow> nat \<Rightarrow> grid \<Rightarrow> grid \<Rightarrow> real" where
  "snapshot_error2d n m U' U =
     Max (insert 0 ((\<lambda>(i, j). \<bar>U' ! i ! j - U ! i ! j\<bar>) ` set (interior2d n m)))"

definition snapshot_error3d :: "nat \<Rightarrow> nat \<Rightarrow> nat \<Rightarrow> grid3 \<Rightarrow> grid3 \<Rightarrow> real" where
  "snapshot_error3d nx ny nz U' U =
     Max (insert 0 ((\<lambda>(i, j, k). \<bar>U' ! i ! j ! k - U ! i ! j ! k\<bar>) ` set (interior3d nx ny nz)))"



text \<open>
  The stencil equation the solvers relax, as the docstring of relax2d states it:
  \<open>a_x * U[i-1,j] + c_x * U[i+1,j] + a_y * U[i,j-1] + c_y * U[i,j+1] - b * U[i,j] = d_rhs\<close>.
\<close>

definition stencil_eq :: "grid \<Rightarrow> grid \<Rightarrow> grid \<Rightarrow> grid \<Rightarrow> grid \<Rightarrow> grid \<Rightarrow> grid \<Rightarrow> nat \<Rightarrow> nat \<Rightarrow> bool" where
  "stencil_eq ax ay cx cy b d_rhs U i j \<longleftrightarrow>
     ax ! i ! j * U ! (i - 1) ! j + cx ! i ! j * U ! (i + 1) ! j +
     ay ! i ! j * U ! i ! (j - 1) + cy ! i ! j * U ! i ! (j + 1) - b ! i ! j * U ! i ! j =
     d_rhs ! i ! j"

text \<open>
  A small experiment with the source at the centre of a \<open>3 \<times> 3\<close> grid; its source
  value at step \<open>1\<close> is \<open>sin (pi / 2) = 1\<close>.
\<close>

definition ex_config :: config where
  "ex_config = \<lparr>cfg_nx = 3, cfg_ny = 3, cfg_Lx = 2, cfg_Ly = 2, cfg_amplitude = 1,
                 cfg_frequency_k = 1 / 2, cfg_dt = 1, cfg_max_steps = 1, cfg_relax_alfa = 3 / 2,
                 cfg_relax_eps = 1 / 2, cfg_relax_max_iter = 10,
                 cfg_experiment_type = ''CLAMPED_CENTER'', cfg_light_k = 2, cfg_ds = 4,
                 cfg_boundary_condition = ''dirichlet''\<rparr>"

definition ex_iso2 :: grid where
  "ex_iso2 = [[1, 1, 1], [1, 0, 1], [1, 1, 1]]"

definition ex_rhs :: grid where
  "ex_rhs = [[0, 0, 0], [0, 1, 0], [0, 0, 0]]"

section \<open>Facts about loops\<close>

lemma for_each_append:
  "for_each f (xs @ ys) s = (case for_each f xs s of Inl e \<Rightarrow> Inl e | Inr s' \<Rightarrow> for_each f ys s')"
  by (induction xs arbitrary: s) (auto split: sum.splits)

lemma for_each_snoc_Inr:
  "for_each f (xs @ [x]) s = Inr t \<longleftrightarrow> (\<exists>s'. for_each f xs s = Inr s' \<and> f x s' = Inr t)"
  by (auto simp: for_each_append split: sum.splits)

section \<open>The Thomas algorithm: elimination and back substitution\<close>

lemma elim_inv:
  "for_each thomas_elim [1..<k] (a, b, c, d) = Inr (a', b', c', d') \<Longrightarrow>
   k \<le> length b \<Longrightarrow> length d = length b \<Longrightarrow>
   a' = a \<and> c' = c \<and> length b' = length b \<and> length d' = length b \<and>
   (\<forall>i. k \<le> i \<longrightarrow> b' ! i = b ! i \<and> d' ! i = d ! i) \<and>
   b' ! 0 = b ! 0 \<and> d' ! 0 = d ! 0 \<and>
   (\<forall>i. 1 \<le> i \<and> i < k \<longrightarrow> b' ! (i - 1) \<noteq> 0 \<and>
        b' ! i = b ! i - a ! i / b' ! (i - 1) * c ! (i - 1) \<and>
        d' ! i = d ! i - a ! i / b' ! (i - 1) * d' ! (i - 1))"
proof (induction k arbitrary: a' b' c' d')
  case 0
  then show ?case by simp
next
  case (Suc k)
  show ?case
  proof (cases "k = 0")
    case True
    with Suc.prems show ?thesis by simp
  next
    case False
    then have split: "[1..<Suc k] = [1..<k] @ [k]" by simp
    from Suc.prems(1) obtain a1 b1 c1 d1 where
      pre: "for_each thomas_elim [1..<k] (a, b, c, d) = Inr (a1, b1, c1, d1)" and
      step: "thomas_elim k (a1, b1, c1, d1) = Inr (a', b', c', d')"
      unfolding split for_each_snoc_Inr by (metis prod_cases4)
    from Suc.prems have kb: "k \<le> length b" "k < length b" by simp_all
    note IH = Suc.IH[OF pre kb(1) Suc.prems(3)]
    from step have nz: "b1 ! (k - 1) \<noteq> 0" by (auto split: if_splits)
    from step nz have res: "a' = a1" "c' = c1"
      "b' = b1[k := b1 ! k - a1 ! k / b1 ! (k - 1) * c1 ! (k - 1)]"
      "d' = d1[k := d1 ! k - a1 ! k / b1 ! (k - 1) * d1 ! (k - 1)]"
      by (auto simp: Let_def)
    have lt: "k < length b1" "k < length d1" using IH kb by simp_all
    have old: "\<And>i. i \<noteq> k \<Longrightarrow> b' ! i = b1 ! i \<and> d' ! i = d1 ! i"
      by (simp add: res)
    have new: "b' ! k = b1 ! k - a1 ! k / b1 ! (k - 1) * c1 ! (k - 1)"
              "d' ! k = d1 ! k - a1 ! k / b1 ! (k - 1) * d1 ! (k - 1)"
      using lt by (simp_all add: res)
    have k1: "k - 1 \<noteq> k" "0 \<noteq> k" using False by simp_all
    show ?thesis
    proof (intro conjI allI impI)
      fix i assume "1 \<le> i \<and> i < Suc k"
      then consider "i < k" "1 \<le> i" | "i = k" by linarith
      then show "b' ! (i - 1) \<noteq> 0"
      proof cases
        case 1 then show ?thesis using IH old[of "i - 1"] by simp
      next
        case 2 then show ?thesis using nz old[of "k - 1"] k1 by simp
      qed
      from \<open>1 \<le> i \<and> i < Suc k\<close> consider "i < k" "1 \<le> i" | "i = k" by linarith
      then show "b' ! i = b ! i - a ! i / b' ! (i - 1) * c ! (i - 1)"
      proof cases
        case 1 then show ?thesis using IH old[of "i - 1"] old[of i] by simp
      next
        case 2 then show ?thesis using new IH old[of "k - 1"] k1 by simp
      qed
      from \<open>1 \<le> i \<and> i < Suc k\<close> consider "i < k" "1 \<le> i" | "i = k" by linarith
      then show "d' ! i = d ! i - a ! i / b' ! (i - 1) * d' ! (i - 1)"
      proof cases
        case 1 then show ?thesis using IH old[of "i - 1"] old[of i] by simp
      next
        case 2 then show ?thesis using new IH old[of "k - 1"] k1 by simp
      qed
    qed (use IH res old k1 in \<open>simp_all\<close>)
  qed
qed

lemma back_inv:
  "for_each (thomas_back b c d) (rev [k..<m]) y0 = Inr y \<Longrightarrow>
   length y = length y0 \<and>
   (\<forall>i. i < k \<or> m \<le> i \<longrightarrow> y ! i = y0 ! i) \<and>
   (m \<le> length y0 \<longrightarrow> (\<forall>i. k \<le> i \<and> i < m \<longrightarrow> b ! i \<noteq> 0 \<and> y ! i = (d ! i - c ! i * y ! (i + 1)) / b ! i))"
proof (induction "m - k" arbitrary: k y)
  case 0
  then show ?case by simp
next
  case (Suc n)
  from Suc.hyps(2) have km: "k < m" by simp
  then have split: "rev [k..<m] = rev [Suc k..<m] @ [k]" by (simp add: upt_conv_Cons)
  from Suc.prems obtain y1 where
    pre: "for_each (thomas_back b c d) (rev [Suc k..<m]) y0 = Inr y1" and
    step: "thomas_back b c d k y1 = Inr y"
    unfolding split for_each_snoc_Inr by blast
  have n: "n = m - Suc k" using Suc.hyps(2) by simp
  note IH = Suc.hyps(1)[OF n pre]
  from step have nz: "b ! k \<noteq> 0" and y: "y = y1[k := (d ! k - c ! k * y1 ! (k + 1)) / b ! k]"
    by (auto split: if_splits)
  have old: "\<And>i. i \<noteq> k \<Longrightarrow> y ! i = y1 ! i" by (simp add: y)
  show ?case
  proof (intro conjI allI impI)
    fix i assume m: "m \<le> length y0" and "k \<le> i \<and> i < m"
    then consider "Suc k \<le> i" "i < m" | "i = k" by linarith
    then show "b ! i \<noteq> 0"
      using IH nz m by cases simp_all
    have "k < length y1" using IH m km by simp
    then have new: "y ! k = (d ! k - c ! k * y1 ! (k + 1)) / b ! k" by (simp add: y)
    from \<open>k \<le> i \<and> i < m\<close> consider "Suc k \<le> i" "i < m" | "i = k" by linarith
    then show "y ! i = (d ! i - c ! i * y ! (i + 1)) / b ! i"
    proof cases
      case 1 then show ?thesis using IH m old[of i] old[of "i + 1"] by simp
    next
      case 2 then show ?thesis using new old[of "k + 1"] by simp
    qed
  qed (use IH y old km in \<open>auto\<close>)
qed

lemma elim_total:
  "k \<le> length b \<Longrightarrow> length d = length b \<Longrightarrow>
   (\<forall>i. i + 1 < k \<longrightarrow> thomas_pivot a b c i \<noteq> 0) \<Longrightarrow>
   \<exists>b' d'. for_each thomas_elim [1..<k] (a, b, c, d) = Inr (a, b', c, d') \<and>
           (\<forall>i<k. b' ! i = thomas_pivot a b c i)"
proof (induction k)
  case 0
  then show ?case by simp
next
  case (Suc k)
  show ?case
  proof (cases "k = 0")
    case True
    then show ?thesis by simp
  next
    case False
    then obtain j where j: "k = Suc j" by (cases k) auto
    have split: "[1..<Suc k] = [1..<k] @ [k]" using False by simp
    from Suc obtain b1 d1 where
      pre: "for_each thomas_elim [1..<k] (a, b, c, d) = Inr (a, b1, c, d1)" and
      piv: "\<forall>i<k. b1 ! i = thomas_pivot a b c i"
      by auto
    from Suc.prems have kb: "k \<le> length b" by simp
    note inv = elim_inv[OF pre kb Suc.prems(2)]
    have nz: "b1 ! (k - 1) \<noteq> 0" using piv Suc.prems(3) j by simp
    define b2 where "b2 = b1[k := b1 ! k - a ! k / b1 ! (k - 1) * c ! (k - 1)]"
    define d2 where "d2 = d1[k := d1 ! k - a ! k / b1 ! (k - 1) * d1 ! (k - 1)]"
    have step: "thomas_elim k (a, b1, c, d1) = Inr (a, b2, c, d2)"
      using nz by (simp add: b2_def d2_def Let_def)
    have run: "for_each thomas_elim [1..<Suc k] (a, b, c, d) = Inr (a, b2, c, d2)"
      unfolding split for_each_snoc_Inr using pre step by blast
    have "b2 ! i = thomas_pivot a b c i" if "i < Suc k" for i
    proof (cases "i = k")
      case True
      have "k < length b1" using inv Suc.prems(1) by simp
      then have "b2 ! k = b1 ! k - a ! k / b1 ! (k - 1) * c ! (k - 1)" by (simp add: b2_def)
      moreover have "b1 ! k = b ! k" using inv by simp
      moreover have "b1 ! (k - 1) = thomas_pivot a b c j" using piv j by simp
      ultimately show ?thesis using True j by simp
    next
      case False
      then show ?thesis using that piv by (simp add: b2_def)
    qed
    with run show ?thesis by blast
  qed
qed

lemma back_total:
  "(\<forall>i\<in>set xs. b ! i \<noteq> 0) \<Longrightarrow> \<exists>y. for_each (thomas_back b c d) xs y0 = Inr y"
  by (induction xs arbitrary: y0) auto

lemma thomas_rows:
  assumes len: "length a = length b" "length c = length b" "length d = length b"
    and run: "thomas a b c d = Inr (y, (a', b', c', d'))"
  shows "length y = length b"
    and "\<forall>i<length b. b' ! i \<noteq> 0"
    and "\<forall>i<length b. b' ! i * y ! i + (if i + 1 < length b then c ! i * y ! (i + 1) else 0) = d' ! i"
proof -
  let ?n = "length b"
  from run obtain a1 b1 c1 d1 where
    fw: "for_each thomas_elim [1..<?n] (a, b, c, d) = Inr (a1, b1, c1, d1)"
    by (auto simp: thomas_def Let_def split: sum.splits if_splits)
  from run fw have n: "?n \<noteq> 0" and last: "b1 ! (?n - 1) \<noteq> 0"
    by (auto simp: thomas_def Let_def split: sum.splits if_splits)
  let ?y0 = "(replicate ?n (0::real))[?n - 1 := d1 ! (?n - 1) / b1 ! (?n - 1)]"
  from run fw n last have
    bk: "for_each (thomas_back b1 c1 d1) (rev [0..<?n - 1]) ?y0 = Inr y" and
    eqs: "a' = a1" "b' = b1" "c' = c1" "d' = d1"
    by (auto simp: thomas_def Let_def split: sum.splits if_splits)
  note F = elim_inv[OF fw order_refl len(3)]
  note B = back_inv[OF bk]
  show "length y = ?n" using B by simp
  have ylast: "y ! (?n - 1) = d1 ! (?n - 1) / b1 ! (?n - 1)"
    using B n by simp
  show "\<forall>i<?n. b' ! i \<noteq> 0"
  proof (intro allI impI)
    fix i assume "i < ?n"
    then consider "i < ?n - 1" | "i = ?n - 1" by linarith
    then show "b' ! i \<noteq> 0" using B last eqs by cases simp_all
  qed
  show "\<forall>i<?n. b' ! i * y ! i + (if i + 1 < ?n then c ! i * y ! (i + 1) else 0) = d' ! i"
  proof (intro allI impI)
    fix i assume "i < ?n"
    then consider "i < ?n - 1" | "i = ?n - 1" by linarith
    then show "b' ! i * y ! i + (if i + 1 < ?n then c ! i * y ! (i + 1) else 0) = d' ! i"
    proof cases
      case 1
      then have "b1 ! i \<noteq> 0" "y ! i = (d1 ! i - c1 ! i * y ! (i + 1)) / b1 ! i"
        using B by simp_all
      moreover have "c1 = c" using F by simp
      moreover have "i + 1 < ?n" using 1 by linarith
      ultimately show ?thesis using eqs by (simp add: field_simps)
    next
      case 2
      then show ?thesis using ylast last eqs n by simp
    qed
  qed
qed

text \<open>
  Claim C8. For a tridiagonal system of \<open>n \<ge> 1\<close> rows (all four arrays of length
  \<open>n\<close>) whose forward-elimination pivots are all nonzero, the Thomas solver returns a
  vector \<open>y\<close>, and \<open>y\<close> satisfies the original equations
  \<open>a[i] * y[i-1] + b[i] * y[i] + c[i] * y[i+1] = d[i]\<close> in every row, the terms
  out of range being absent.
\<close>

theorem thomas_solves_system:
  assumes len: "length a = length b" "length c = length b" "length d = length b"
    and n: "1 \<le> length b"
    and piv: "\<forall>i<length b. thomas_pivot a b c i \<noteq> 0"
  shows "\<exists>y s. thomas a b c d = Inr (y, s) \<and> length y = length b \<and>
           (\<forall>i<length b.
              (if 0 < i then a ! i * y ! (i - 1) else 0) + b ! i * y ! i +
              (if i + 1 < length b then c ! i * y ! (i + 1) else 0) = d ! i)"
proof -
  let ?n = "length b"
  from piv have "\<forall>i. i + 1 < ?n \<longrightarrow> thomas_pivot a b c i \<noteq> 0" by simp
  from elim_total[OF order_refl len(3) this] obtain b' d' where
    fw: "for_each thomas_elim [1..<?n] (a, b, c, d) = Inr (a, b', c, d')" and
    pv: "\<forall>i<?n. b' ! i = thomas_pivot a b c i" by blast
  have nz: "\<forall>i<?n. b' ! i \<noteq> 0" using pv piv by simp
  then have "\<forall>i\<in>set (rev [0..<?n - 1]). b' ! i \<noteq> 0" by simp
  from back_total[OF this] obtain y where
    bk: "for_each (thomas_back b' c d') (rev [0..<?n - 1])
           ((replicate ?n 0)[?n - 1 := d' ! (?n - 1) / b' ! (?n - 1)]) = Inr y" by blast
  have last: "b' ! (?n - 1) \<noteq> 0" using nz n by simp
  have n0: "b \<noteq> []" using n by auto
  have run: "thomas a b c d = Inr (y, (a, b', c, d'))"
    using fw bk last n0 by (simp add: thomas_def Let_def)
  note R = thomas_rows[OF len run]
  note F = elim_inv[OF fw order_refl len(3)]
  have "(if 0 < i then a ! i * y ! (i - 1) else 0) + b ! i * y ! i +
        (if i + 1 < ?n then c ! i * y ! (i + 1) else 0) = d ! i" if i: "i < ?n" for i
  proof (cases "i = 0")
    case True
    have "b' ! 0 = b ! 0" "d' ! 0 = d ! 0" using F by simp_all
    moreover have "b' ! 0 * y ! 0 + (if 0 + 1 < ?n then c ! 0 * y ! (0 + 1) else 0) = d' ! 0"
      using R(3) i True by blast
    ultimately show ?thesis using True by (simp split: if_splits)
  next
    case False
    define w where "w = a ! i / b' ! (i - 1)"
    define C where "C = (if i + 1 < ?n then c ! i * y ! (i + 1) else 0)"
    have p: "b' ! (i - 1) \<noteq> 0" using nz i by simp
    have bi: "b ! i = b' ! i + w * c ! (i - 1)" and di: "d ! i = d' ! i + w * d' ! (i - 1)"
      using F False i by (simp_all add: w_def)
    have ai: "a ! i = w * b' ! (i - 1)" using p by (simp add: w_def)
    have r1: "b' ! i * y ! i + C = d' ! i" using R(3) i by (simp add: C_def)
    have "i - 1 < ?n" "i - 1 + 1 = i" using i False by simp_all
    then have r0: "b' ! (i - 1) * y ! (i - 1) + c ! (i - 1) * y ! i = d' ! (i - 1)"
      using R(3)[rule_format, of "i - 1"] i by simp
    have "a ! i * y ! (i - 1) + b ! i * y ! i + C =
          w * (b' ! (i - 1) * y ! (i - 1) + c ! (i - 1) * y ! i) + (b' ! i * y ! i + C)"
      by (simp add: ai bi algebra_simps)
    also have "\<dots> = d ! i" using r0 r1 di by simp
    finally show ?thesis using False by (simp add: C_def)
  qed
  with run R(1) show ?thesis by blast
qed

theorem thomas_solves_system_witness:
  "\<exists>y s. thomas [0, 1, 1] [2, 2, 2] [1, 1, 0] [3, 4, 3] = Inr (y, s) \<and>
     length y = length [2, 2, 2::real] \<and>
     (\<forall>i<length [2, 2, 2::real].
        (if 0 < i then [0, 1, 1] ! i * y ! (i - 1) else 0) + [2, 2, 2] ! i * y ! i +
        (if i + 1 < length [2, 2, 2::real] then [1, 1, 0] ! i * y ! (i + 1) else 0) =
        [3, 4, 3] ! i)"
  by (rule thomas_solves_system) (simp_all add: less_Suc_eq eval_nat_numeral)




lemma gs_sweep_Nil [simp]: "gs_sweep G [] v = v"
  by (simp add: gs_sweep_def)

lemma gs_sweep_Cons: "gs_sweep G (p # ps) v = gs_sweep G ps (v(p := G v p))"
  by (simp add: gs_sweep_def)

lemma gs_sweep_append: "gs_sweep G (xs @ ys) v = gs_sweep G ys (gs_sweep G xs v)"
  by (simp add: gs_sweep_def)

lemma gs_sweep_outside: "q \<notin> set ps \<Longrightarrow> gs_sweep G ps v q = v q"
  by (induction ps arbitrary: v) (auto simp: gs_sweep_Cons)

lemma gs_sweep_at:
  assumes "distinct (xs @ p # ys)"
  shows "gs_sweep G (xs @ p # ys) v p = G (gs_sweep G xs v) p"
proof -
  have "p \<notin> set ys" using assms by simp
  then show ?thesis
    by (simp add: gs_sweep_append gs_sweep_Cons gs_sweep_outside)
qed

lemma gs_sweep_prefix:
  assumes "q \<notin> set (p # ys)"
  shows "gs_sweep G xs v q = gs_sweep G (xs @ p # ys) v q"
  using assms by (simp add: gs_sweep_append gs_sweep_outside)

lemma sorted_wrt_less_distinct: "sorted_wrt (<) (xs :: 'a::order list) \<Longrightarrow> distinct xs"
  by (induction xs) auto

lemma gs_sweep_sorted:
  fixes p :: "'p::linorder"
  assumes srt: "sorted_wrt (<) ps" and p: "p \<in> set ps"
  shows "\<exists>V. gs_sweep G ps v p = G V p \<and>
             (\<forall>q. q < p \<longrightarrow> V q = gs_sweep G ps v q) \<and>
             (\<forall>q. p \<le> q \<longrightarrow> V q = v q)"
proof -
  from p obtain xs ys where ps: "ps = xs @ p # ys" by (auto dest: split_list)
  from srt have lo: "\<forall>x\<in>set xs. x < p" and hi: "\<forall>y\<in>set ys. p < y"
    unfolding ps by (auto simp: sorted_wrt_append)
  from srt have d: "distinct (xs @ p # ys)"
    unfolding ps by (rule sorted_wrt_less_distinct)
  let ?V = "gs_sweep G xs v"
  have "gs_sweep G ps v p = G ?V p" unfolding ps by (rule gs_sweep_at[OF d])
  moreover have "?V q = gs_sweep G ps v q" if "q < p" for q
  proof -
    have "q \<notin> set (p # ys)" using that hi by auto
    then show ?thesis unfolding ps by (rule gs_sweep_prefix)
  qed
  moreover have "?V q = v q" if "p \<le> q" for q
  proof -
    have "q \<notin> set xs" using that lo by auto
    then show ?thesis by (rule gs_sweep_outside)
  qed
  ultimately show ?thesis by blast
qed

lemma for_each_map: "for_each f (map g xs) s = for_each (\<lambda>x. f (g x)) xs s"
  by (induction xs arbitrary: s) (auto split: sum.splits)

lemma for_each_product:
  "for_each (\<lambda>i. for_each (\<lambda>j. f (i, j)) js) is s = for_each f (List.product is js) s"
  by (induction "is" arbitrary: s) (auto simp: for_each_append for_each_map split: sum.splits)

lemma fold_product:
  "fold (\<lambda>i. fold (\<lambda>j. f (i, j)) js) is s = fold f (List.product is js) s"
  by (induction "is" arbitrary: s) (auto simp: fold_map comp_def)

lemma sorted_wrt_product:
  fixes xs :: "'a::linorder list" and ys :: "'b::linorder list"
  assumes "sorted_wrt (<) xs" "sorted_wrt (<) ys"
  shows "sorted_wrt (<) (List.product xs ys)"
  using assms
  by (induction xs) (auto simp: sorted_wrt_append sorted_wrt_map less_prod_def)

lemma for_each_view:
  assumes "I s"
    and "\<And>p s. p \<in> set ps \<Longrightarrow> I s \<Longrightarrow>
           \<exists>s'. f p s = Inr s' \<and> I s' \<and> view s' = (view s)(p := G (view s) p)"
  shows "\<exists>s'. for_each f ps s = Inr s' \<and> I s' \<and> view s' = gs_sweep G ps (view s)"
  using assms
proof (induction ps arbitrary: s)
  case Nil
  then show ?case by simp
next
  case (Cons p ps)
  have "p \<in> set (p # ps)" by simp
  from Cons.prems(2)[OF this Cons.prems(1)] obtain s1 where
    s1: "f p s = Inr s1" "I s1" "view s1 = (view s)(p := G (view s) p)" by blast
  have "\<exists>s'. for_each f ps s1 = Inr s' \<and> I s' \<and> view s' = gs_sweep G ps (view s1)"
    by (rule Cons.IH[OF s1(2)]) (rule Cons.prems(2), simp_all)
  then show ?case using s1 by (simp add: gs_sweep_Cons)
qed

lemma fold_view:
  assumes "I s"
    and "\<And>p s. p \<in> set ps \<Longrightarrow> I s \<Longrightarrow> I (f p s) \<and> view (f p s) = (view s)(p := G (view s) p)"
  shows "I (fold f ps s) \<and> view (fold f ps s) = gs_sweep G ps (view s)"
  using assms
proof (induction ps arbitrary: s)
  case Nil
  then show ?case by simp
next
  case (Cons p ps)
  have "p \<in> set (p # ps)" by simp
  from Cons.prems(2)[OF this Cons.prems(1)]
  have s1: "I (f p s)" "view (f p s) = (view s)(p := G (view s) p)" by blast+
  have "I (fold f ps (f p s)) \<and> view (fold f ps (f p s)) = gs_sweep G ps (view (f p s))"
    by (rule Cons.IH[OF s1(1)]) (rule Cons.prems(2), simp_all)
  then show ?case using s1 by (simp add: gs_sweep_Cons)
qed

lemma shape2d_nth: "shape2d n m U \<Longrightarrow> i < n \<Longrightarrow> length (U ! i) = m"
  by (auto simp: shape2d_def list_all_length)

lemma shape2d_set2: "shape2d n m U \<Longrightarrow> shape2d n m (set2 U i j v)"
proof (cases "i < length U")
  case True
  assume "shape2d n m U"
  then show ?thesis using True
    by (auto simp: shape2d_def set2_def list_all_length nth_list_update)
next
  case False
  assume "shape2d n m U"
  then show ?thesis using False by (simp add: set2_def list_update_beyond)
qed

lemma field2d_set2:
  assumes "shape2d n m U" "i < n" "j < m"
  shows "field2d (set2 U i j v) = (field2d U)((i, j) := v)"
proof
  fix q :: "nat \<times> nat"
  obtain i' j' where q: "q = (i', j')" by (cases q)
  have "length U = n" "length (U ! i) = m" using assms by (auto simp: shape2d_def list_all_length)
  then show "field2d (set2 U i j v) q = ((field2d U)((i, j) := v)) q"
    using assms by (auto simp: q field2d_def set2_def nth_list_update)
qed

lemma interior2d_iff:
  "(i, j) \<in> set (interior2d n m) \<longleftrightarrow> 1 \<le> i \<and> i + 1 < n \<and> 1 \<le> j \<and> j + 1 < m"
  by (auto simp: interior2d_def)

lemma interior2d_sorted: "sorted_wrt (<) (interior2d n m)"
  unfolding interior2d_def by (intro sorted_wrt_product sorted_wrt_upt)

lemma inv_interior2d_nth:
  assumes "shape2d n m b" "(i, j) \<in> set (interior2d n m)"
  shows "inv_interior2d b ! i ! j = recip (b ! i ! j)"
proof -
  from assms(2) have ij: "1 \<le> i" "i + 1 < n" "1 \<le> j" "j + 1 < m" by (auto simp: interior2d_iff)
  have "length b = n" "length (b ! i) = m" using assms(1) ij by (auto simp: shape2d_def list_all_length)
  then show ?thesis using ij by (simp add: inv_interior2d_def)
qed

lemma inv_all2d_nth:
  assumes "shape2d n m b" "i < n" "j < m"
  shows "inv_all2d b ! i ! j = recip (b ! i ! j)"
proof -
  have "length b = n" "length (b ! i) = m" using assms by (auto simp: shape2d_def list_all_length)
  then show ?thesis using assms by (simp add: inv_all2d_def)
qed

lemma relax2d_node_view:
  assumes U: "shape2d n m U" and ij: "(i, j) \<in> set (interior2d n m)"
    and r: "inv_b ! i ! j = recip (b ! i ! j)" and nz: "b ! i ! j \<noteq> 0"
  shows "\<exists>U'. relax2d_node ax ay cx cy inv_b d_rhs omega i j U = Inr U' \<and> shape2d n m U' \<and>
           field2d U' = (field2d U)((i, j) := sor2d ax ay cx cy b d_rhs omega (field2d U) (i, j))"
proof -
  from ij have lt: "i < n" "j < m" by (auto simp: interior2d_iff)
  define t where "t = (ax ! i ! j * U ! (i - 1) ! j + cx ! i ! j * U ! (i + 1) ! j +
                   ay ! i ! j * U ! i ! (j - 1) + cy ! i ! j * U ! i ! (j + 1) -
                   d_rhs ! i ! j) * (1 / b ! i ! j)"
  have node: "relax2d_node ax ay cx cy inv_b d_rhs omega i j U =
              Inr (set2 U i j (t * omega + U ! i ! j * (1 - omega)))"
    using r nz by (simp add: relax2d_node_def recip_def t_def)
  have val: "t * omega + U ! i ! j * (1 - omega) = sor2d ax ay cx cy b d_rhs omega (field2d U) (i, j)"
    by (simp add: sor2d_def gs_target2d_def field2d_def t_def)
  show ?thesis
    unfolding node val using shape2d_set2[OF U] field2d_set2[OF U lt] by blast
qed

lemma relax2d_sweep_view:
  assumes U: "shape2d n m U"
    and r: "\<forall>(i, j)\<in>set (interior2d n m). inv_b ! i ! j = recip (b ! i ! j) \<and> b ! i ! j \<noteq> 0"
  shows "\<exists>U'. relax2d_sweep ax ay cx cy inv_b d_rhs n m omega U = Inr U' \<and> shape2d n m U' \<and>
           field2d U' = gs_sweep (sor2d ax ay cx cy b d_rhs omega) (interior2d n m) (field2d U)"
proof -
  have eq: "relax2d_sweep ax ay cx cy inv_b d_rhs n m omega U =
        for_each (\<lambda>(i, j). relax2d_node ax ay cx cy inv_b d_rhs omega i j) (interior2d n m) U"
    unfolding relax2d_sweep_def interior2d_def
    by (subst for_each_product[symmetric]) simp
  show ?thesis unfolding eq
  proof (rule for_each_view[where I = "shape2d n m" and view = field2d, OF U])
    fix p and s :: grid assume p: "p \<in> set (interior2d n m)" and s: "shape2d n m s"
    obtain i j where pij: "p = (i, j)" by (cases p)
    from r p pij have rr: "inv_b ! i ! j = recip (b ! i ! j)" and nz: "b ! i ! j \<noteq> 0" by auto
    from p pij have p': "(i, j) \<in> set (interior2d n m)" by simp
    from relax2d_node_view[OF s p' rr nz]
    show "\<exists>s'. (case p of (i, j) \<Rightarrow> relax2d_node ax ay cx cy inv_b d_rhs omega i j) s = Inr s' \<and>
            shape2d n m s' \<and>
            field2d s' = (field2d s)(p := sor2d ax ay cx cy b d_rhs omega (field2d s) p)"
      by (simp add: pij)
  qed
qed

lemma gs2d_char:
  fixes ax ay cx cy b d_rhs omega V n m
  defines "W \<equiv> gs_sweep (sor2d ax ay cx cy b d_rhs omega) (interior2d n m) V"
  assumes ij: "(i, j) \<in> set (interior2d n m)"
  shows "W (i, j) =
     omega * ((ax ! i ! j * W (i - 1, j) + cx ! i ! j * V (i + 1, j) +
               ay ! i ! j * W (i, j - 1) + cy ! i ! j * V (i, j + 1) - d_rhs ! i ! j) / b ! i ! j)
     + (1 - omega) * V (i, j)"
proof -
  from ij have pos: "1 \<le> i" "1 \<le> j" by (auto simp: interior2d_iff)
  from gs_sweep_sorted[OF interior2d_sorted ij, of "sor2d ax ay cx cy b d_rhs omega" V]
  obtain X where X: "W (i, j) = sor2d ax ay cx cy b d_rhs omega X (i, j)"
    and lo: "\<And>q. q < (i, j) \<Longrightarrow> X q = W q"
    and hi: "\<And>q. (i, j) \<le> q \<Longrightarrow> X q = V q"
    unfolding W_def by blast
  have "X (i - 1, j) = W (i - 1, j)" using pos by (intro lo) (simp add: less_prod_def)
  moreover have "X (i, j - 1) = W (i, j - 1)" using pos by (intro lo) (simp add: less_prod_def)
  moreover have "X (i + 1, j) = V (i + 1, j)" by (intro hi) (simp add: less_eq_prod_def)
  moreover have "X (i, j + 1) = V (i, j + 1)" by (intro hi) (simp add: less_eq_prod_def)
  moreover have "X (i, j) = V (i, j)" by (intro hi) simp
  ultimately show ?thesis unfolding X by (simp add: sor2d_def gs_target2d_def)
qed

lemma relax_node_view:
  assumes U: "shape2d n m U" and ij: "(i, j) \<in> set (interior2d n m)"
    and r: "inv_b ! i ! j = recip (b ! i ! j)" and nz: "b ! i ! j \<noteq> 0"
  shows "\<exists>U'. relax_node ax ay cx cy inv_b d_rhs alfa i j (U, e) =
              Inr (U', max e \<bar>field2d U (i, j) - gs_target2d ax ay cx cy b d_rhs (field2d U) (i, j)\<bar>) \<and>
           shape2d n m U' \<and>
           field2d U' = (field2d U)((i, j) := sor2d ax ay cx cy b d_rhs alfa (field2d U) (i, j))"
proof -
  from ij have lt: "i < n" "j < m" by (auto simp: interior2d_iff)
  define t where "t = (ax ! i ! j * U ! (i - 1) ! j + cx ! i ! j * U ! (i + 1) ! j +
                   ay ! i ! j * U ! i ! (j - 1) + cy ! i ! j * U ! i ! (j + 1) -
                   d_rhs ! i ! j) * (1 / b ! i ! j)"
  have node: "relax_node ax ay cx cy inv_b d_rhs alfa i j (U, e) =
              Inr (set2 U i j (t * alfa + U ! i ! j * (1 - alfa)), max e \<bar>U ! i ! j - t\<bar>)"
    using r nz by (simp add: relax_node_def recip_def t_def Let_def)
  have tt: "t = gs_target2d ax ay cx cy b d_rhs (field2d U) (i, j)"
    by (simp add: gs_target2d_def field2d_def t_def)
  have val: "t * alfa + U ! i ! j * (1 - alfa) = sor2d ax ay cx cy b d_rhs alfa (field2d U) (i, j)"
    by (simp add: sor2d_def tt[symmetric]) (simp add: field2d_def)
  have uij: "U ! i ! j = field2d U (i, j)" by (simp add: field2d_def)
  show ?thesis
    unfolding node val using shape2d_set2[OF U] field2d_set2[OF U lt]
    by (simp add: tt uij)
qed

lemma sor2d_step_size:
  "\<bar>alfa\<bar> * \<bar>v p - gs_target2d ax ay cx cy b d_rhs v p\<bar> = \<bar>sor2d ax ay cx cy b d_rhs alfa v p - v p\<bar>"
proof -
  have "sor2d ax ay cx cy b d_rhs alfa v p - v p = alfa * (gs_target2d ax ay cx cy b d_rhs v p - v p)"
    by (simp add: sor2d_def algebra_simps)
  then show ?thesis by (simp add: abs_mult abs_minus_commute)
qed

lemma Max_insert_snoc:
  "Max (insert a (f ` set (xs @ [p]))) = max (Max (insert a (f ` set xs))) (f p)"
proof -
  have "insert a (f ` set (xs @ [p])) = insert (f p) (insert a (f ` set xs))" by auto
  then show ?thesis by (simp add: max.commute)
qed

lemma relax_prefix_view:
  assumes U: "shape2d n m U"
    and ps: "distinct ps" "set ps \<subseteq> set (interior2d n m)"
    and r: "\<forall>(i, j)\<in>set (interior2d n m). inv_b ! i ! j = recip (b ! i ! j) \<and> b ! i ! j \<noteq> 0"
  shows "\<exists>U' e'. for_each (\<lambda>(i, j). relax_node ax ay cx cy inv_b d_rhs alfa i j) ps (U, e) = Inr (U', e') \<and>
           shape2d n m U' \<and>
           field2d U' = gs_sweep (sor2d ax ay cx cy b d_rhs alfa) ps (field2d U) \<and>
           \<bar>alfa\<bar> * e' = Max (insert (\<bar>alfa\<bar> * e)
              ((\<lambda>p. \<bar>gs_sweep (sor2d ax ay cx cy b d_rhs alfa) ps (field2d U) p - field2d U p\<bar>) ` set ps))"
  using ps
proof (induction ps rule: rev_induct)
  case Nil
  then show ?case using U by simp
next
  case (snoc p xs)
  let ?G = "sor2d ax ay cx cy b d_rhs alfa"
  let ?V = "field2d U"
  from snoc.prems have dx: "distinct xs" "set xs \<subseteq> set (interior2d n m)"
    and pn: "p \<notin> set xs" and pin: "p \<in> set (interior2d n m)" by auto
  from snoc.IH[OF dx] obtain U1 e1 where
    run1: "for_each (\<lambda>(i, j). relax_node ax ay cx cy inv_b d_rhs alfa i j) xs (U, e) = Inr (U1, e1)"
    and sh1: "shape2d n m U1"
    and f1: "field2d U1 = gs_sweep ?G xs ?V"
    and e1: "\<bar>alfa\<bar> * e1 = Max (insert (\<bar>alfa\<bar> * e) ((\<lambda>p. \<bar>gs_sweep ?G xs ?V p - ?V p\<bar>) ` set xs))"
    by blast
  obtain i j where pij: "p = (i, j)" by (cases p)
  from r pin pij have rr: "inv_b ! i ! j = recip (b ! i ! j)" and nz: "b ! i ! j \<noteq> 0" by auto
  from pin pij have p': "(i, j) \<in> set (interior2d n m)" by simp
  from relax_node_view[OF sh1 p' rr nz, of ax ay cx cy d_rhs alfa e1] obtain U2 where
    step: "relax_node ax ay cx cy inv_b d_rhs alfa i j (U1, e1) =
             Inr (U2, max e1 \<bar>field2d U1 p - gs_target2d ax ay cx cy b d_rhs (field2d U1) p\<bar>)"
    and sh2: "shape2d n m U2"
    and f2: "field2d U2 = (field2d U1)(p := ?G (field2d U1) p)"
    unfolding pij by blast
  let ?e2 = "max e1 \<bar>field2d U1 p - gs_target2d ax ay cx cy b d_rhs (field2d U1) p\<bar>"
  have run2: "for_each (\<lambda>(i, j). relax_node ax ay cx cy inv_b d_rhs alfa i j) (xs @ [p]) (U, e) = Inr (U2, ?e2)"
    using run1 step by (simp add: for_each_append pij)
  have W: "gs_sweep ?G (xs @ [p]) ?V = (field2d U1)(p := ?G (field2d U1) p)"
    by (simp add: gs_sweep_append gs_sweep_Cons f1)
  have Vp: "field2d U1 p = ?V p" unfolding f1 using pn by (rule gs_sweep_outside)
  have same: "(\<lambda>q. \<bar>gs_sweep ?G (xs @ [p]) ?V q - ?V q\<bar>) ` set xs =
              (\<lambda>q. \<bar>gs_sweep ?G xs ?V q - ?V q\<bar>) ` set xs"
    using pn by (intro image_cong) (auto simp: W f1)
  have atp: "\<bar>gs_sweep ?G (xs @ [p]) ?V p - ?V p\<bar> =
             \<bar>alfa\<bar> * \<bar>field2d U1 p - gs_target2d ax ay cx cy b d_rhs (field2d U1) p\<bar>"
    by (simp add: W sor2d_step_size Vp[symmetric])
  have "\<bar>alfa\<bar> * ?e2 = max (\<bar>alfa\<bar> * e1) (\<bar>alfa\<bar> * \<bar>field2d U1 p - gs_target2d ax ay cx cy b d_rhs (field2d U1) p\<bar>)"
    by (simp add: max_mult_distrib_left)
  also have "\<dots> = Max (insert (\<bar>alfa\<bar> * e)
       ((\<lambda>q. \<bar>gs_sweep ?G (xs @ [p]) ?V q - ?V q\<bar>) ` set (xs @ [p])))"
    unfolding Max_insert_snoc same e1 atp ..
  finally show ?case using run2 sh2 f2 W by auto
qed

lemma fold_max:
  "fold (\<lambda>x e. let d = f x in if d > e then d else e) xs (e0::real) = Max (insert e0 (f ` set xs))"
proof (induction xs rule: rev_induct)
  case Nil
  then show ?case by simp
next
  case (snoc p xs)
  define g where "g = (\<lambda>x (e::real). let d = f x in if d > e then d else e)"
  have g: "g x y = max y (f x)" for x y by (simp add: g_def Let_def max_def)
  have "fold g (xs @ [p]) e0 = max (fold g xs e0) (f p)" by (simp add: g)
  also have "fold g xs e0 = Max (insert e0 (f ` set xs))" using snoc.IH by (simp only: g_def)
  finally show ?case unfolding g_def by (simp only: Max_insert_snoc)
qed

lemma max_diff2d_Max:
  "max_diff2d n m U Uo = Max (insert 0 ((\<lambda>(i, j). \<bar>U ! i ! j - Uo ! i ! j\<bar>) ` set (interior2d n m)))"
proof -
  have "max_diff2d n m U Uo =
        fold (\<lambda>p e. let d = (case p of (i, j) \<Rightarrow> \<bar>U ! i ! j - Uo ! i ! j\<bar>) in if d > e then d else e)
          (interior2d n m) 0"
    unfolding max_diff2d_def interior2d_def
    by (subst fold_product[symmetric]) simp
  then show ?thesis by (simp only: fold_max)
qed

lemma shape2d_eqI:
  assumes "shape2d n m A" "shape2d n m B" "\<And>i j. i < n \<Longrightarrow> j < m \<Longrightarrow> A ! i ! j = B ! i ! j"
  shows "A = B"
proof (rule nth_equalityI)
  show "length A = length B" using assms by (simp add: shape2d_def)
next
  fix i assume i: "i < length A"
  then have "i < n" using assms(1) by (simp add: shape2d_def)
  then have la: "length (A ! i) = m" and lb: "length (B ! i) = m"
    using assms(1,2) by (auto dest: shape2d_nth)
  show "A ! i = B ! i"
  proof (rule nth_equalityI)
    show "length (A ! i) = length (B ! i)" using la lb by simp
  next
    fix j assume "j < length (A ! i)"
    then show "A ! i ! j = B ! i ! j" using assms(3) \<open>i < n\<close> la by simp
  qed
qed

lemma copy_field2d_eq:
  assumes U: "shape2d n m U" and Uo: "shape2d n m U_old"
  shows "copy_field2d n m U U_old = U"
proof -
  let ?ps = "List.product [0..<n] [0..<m]"
  let ?G = "\<lambda>(v :: nat \<times> nat \<Rightarrow> real) p. field2d U p"
  have eq: "copy_field2d n m U U_old = fold (\<lambda>(i, j) Uo. set2 Uo i j (U ! i ! j)) ?ps U_old"
    unfolding copy_field2d_def by (subst fold_product[symmetric]) simp
  have srt: "sorted_wrt (<) ?ps" by (intro sorted_wrt_product sorted_wrt_upt)
  have view: "shape2d n m (copy_field2d n m U U_old) \<and>
        field2d (copy_field2d n m U U_old) = gs_sweep ?G ?ps (field2d U_old)"
    unfolding eq
  proof (rule fold_view[where I = "shape2d n m" and view = field2d, OF Uo])
    fix p and s :: grid assume p: "p \<in> set ?ps" and s: "shape2d n m s"
    obtain i j where pij: "p = (i, j)" by (cases p)
    from p pij have lt: "i < n" "j < m" by auto
    show "shape2d n m ((case p of (i, j) \<Rightarrow> \<lambda>Uo. set2 Uo i j (U ! i ! j)) s) \<and>
          field2d ((case p of (i, j) \<Rightarrow> \<lambda>Uo. set2 Uo i j (U ! i ! j)) s) =
          (field2d s)(p := field2d U p)"
      using shape2d_set2[OF s] field2d_set2[OF s lt] by (simp add: pij field2d_def)
  qed
  show ?thesis
  proof (rule shape2d_eqI[OF _ U])
    show "shape2d n m (copy_field2d n m U U_old)" using view by simp
  next
    fix i j assume lt: "i < n" "j < m"
    then have p: "(i, j) \<in> set ?ps" by simp
    from gs_sweep_sorted[OF srt p, of ?G "field2d U_old"]
    have "gs_sweep ?G ?ps (field2d U_old) (i, j) = field2d U (i, j)" by auto
    then have "field2d (copy_field2d n m U U_old) (i, j) = field2d U (i, j)" using view by simp
    then show "copy_field2d n m U U_old ! i ! j = U ! i ! j" by (simp add: field2d_def)
  qed
qed

lemma relax2d_iteration_view:
  assumes U: "shape2d n m U" and Uo: "shape2d n m U_old"
    and r: "\<forall>(i, j)\<in>set (interior2d n m). inv_b ! i ! j = recip (b ! i ! j) \<and> b ! i ! j \<noteq> 0"
  shows "\<exists>U'. relax2d_iteration ax ay cx cy inv_b d_rhs n m omega (U, U_old) =
             Inr ((U', U), Max (insert 0 ((\<lambda>(i, j). \<bar>U' ! i ! j - U ! i ! j\<bar>) ` set (interior2d n m)))) \<and>
           shape2d n m U' \<and>
           field2d U' = gs_sweep (sor2d ax ay cx cy b d_rhs omega) (interior2d n m) (field2d U)"
proof -
  from relax2d_sweep_view[OF U r, of ax ay cx cy d_rhs omega] obtain U' where
    sw: "relax2d_sweep ax ay cx cy inv_b d_rhs n m omega U = Inr U'" and
    sh: "shape2d n m U'" and
    f: "field2d U' = gs_sweep (sor2d ax ay cx cy b d_rhs omega) (interior2d n m) (field2d U)"
    by blast
  have "relax2d_iteration ax ay cx cy inv_b d_rhs n m omega (U, U_old) =
        Inr ((U', U), max_diff2d n m U' U)"
    by (simp add: relax2d_iteration_def sw copy_field2d_eq[OF U Uo])
  then show ?thesis using sh f by (simp add: max_diff2d_Max)
qed

lemma relax_loop_sor:
  "relax_loop body eps max_iter sei = sor_loop body eps max_iter 0 sei"
proof (induction body eps max_iter sei rule: relax_loop.induct)
  case (1 body eps max_iter s err it)
  show ?case
  proof (cases "err > eps \<and> int it < max_iter")
    case True
    show ?thesis
    proof (cases "body s")
      case (Inl x)
      then show ?thesis using True
        by (subst relax_loop.simps, subst sor_loop.simps) simp
    next
      case (Inr se)
      obtain s' e' where se: "se = (s', e')" by (cases se)
      from "1.IH"[OF True Inr[unfolded se] refl] True Inr se show ?thesis
        by (subst relax_loop.simps, subst sor_loop.simps) simp
    qed
  next
    case False
    then show ?thesis
      by (subst relax_loop.simps, subst sor_loop.simps) auto
  qed
qed

lemma sor_loop_invariant:
  assumes "sor_loop body eps max_iter min_iter (s, e, it) = Inr (s', e', it')"
    and "I s" and step: "\<And>s s' e. I s \<Longrightarrow> body s = Inr (s', e) \<Longrightarrow> I s'"
  shows "I s'"
  using assms
proof (induction body eps max_iter min_iter "(s, e, it)" arbitrary: s e it rule: sor_loop.induct)
  case (1 body eps max_iter min_iter s err it)
  show ?case
  proof (cases "(err > eps \<and> int it < max_iter) \<or> int it < min_iter")
    case True
    from "1.prems"(1) have "(case body s of Inl e \<Rightarrow> Inl e
         | Inr (s', err') \<Rightarrow> sor_loop body eps max_iter min_iter (s', err', it + 1)) = Inr (s', e', it')"
      by (subst (asm) sor_loop.simps) (simp only: True if_True)
    then obtain s1 e1 where b: "body s = Inr (s1, e1)"
      and run: "sor_loop body eps max_iter min_iter (s1, e1, it + 1) = Inr (s', e', it')"
      by (auto split: sum.splits)
    have "I s1" using "1.prems"(3)[OF "1.prems"(2) b] .
    from "1.hyps"[OF True b refl run this "1.prems"(3)] show ?thesis .
  next
    case False
    from "1.prems"(1) have "(s, err, it) = (s', e', it')"
      by (subst (asm) sor_loop.simps) (simp only: False if_False sum.inject)
    with "1.prems"(2) show ?thesis by simp
  qed
qed

lemma sor_loop_spec:
  assumes total: "\<And>s. I s \<Longrightarrow> \<exists>s' e'. body s = Inr (s', e') \<and> I s'"
    and mm: "min_iter \<le> max_iter"
  shows "I s \<Longrightarrow> int it \<le> max_iter \<Longrightarrow>
     \<exists>N s' e'. sor_loop body eps max_iter min_iter (s, e, it) = Inr (s', e', it + N) \<and>
        sor_iterate body N (s, e) = Inr (s', e') \<and> I s' \<and> int (it + N) \<le> max_iter \<and>
        stop_rule eps max_iter min_iter e' (it + N) \<and>
        (\<forall>k<N. \<forall>s'' e''. sor_iterate body k (s, e) = Inr (s'', e'') \<longrightarrow>
                  \<not> stop_rule eps max_iter min_iter e'' (it + k))"
proof (induction "nat (max_iter - int it)" arbitrary: s e it)
  case 0
  then have it: "int it = max_iter" by simp
  then have "sor_loop body eps max_iter min_iter (s, e, it) = Inr (s, e, it)" using mm
    by (subst sor_loop.simps) simp
  then show ?case using it 0 by (intro exI[of _ 0]) (simp add: stop_rule_def)
next
  case (Suc n)
  show ?case
  proof (cases "(e > eps \<and> int it < max_iter) \<or> int it < min_iter")
    case False
    have "sor_loop body eps max_iter min_iter (s, e, it) = Inr (s, e, it)"
      by (subst sor_loop.simps) (simp only: False if_False)
    moreover have "stop_rule eps max_iter min_iter e it"
      using False Suc.prems(2) mm by (auto simp: stop_rule_def)
    ultimately show ?thesis using Suc.prems by (intro exI[of _ 0]) simp
  next
    case True
    then have lt: "int it < max_iter" using mm by auto
    from total[OF Suc.prems(1)] obtain s1 e1 where b: "body s = Inr (s1, e1)" and I1: "I s1" by blast
    have n: "n = nat (max_iter - int (it + 1))" using Suc.hyps(2) by simp
    have le: "int (it + 1) \<le> max_iter" using lt by simp
    from Suc.hyps(1)[OF n I1 le, of e1] obtain N s' e' where
      run: "sor_loop body eps max_iter min_iter (s1, e1, it + 1) = Inr (s', e', it + 1 + N)" and
      iter: "sor_iterate body N (s1, e1) = Inr (s', e')" and I': "I s'" and
      bound: "int (it + 1 + N) \<le> max_iter" and
      stop: "stop_rule eps max_iter min_iter e' (it + 1 + N)" and
      before: "\<forall>k<N. \<forall>s'' e''. sor_iterate body k (s1, e1) = Inr (s'', e'') \<longrightarrow>
                  \<not> stop_rule eps max_iter min_iter e'' (it + 1 + k)"
      by blast
    have nostop: "\<not> stop_rule eps max_iter min_iter e it"
      using True lt by (auto simp: stop_rule_def)
    have run': "sor_loop body eps max_iter min_iter (s, e, it) = Inr (s', e', it + Suc N)"
      using True b run by (subst sor_loop.simps) simp
    have iter': "sor_iterate body (Suc N) (s, e) = Inr (s', e')" using b iter by simp
    have before': "\<not> stop_rule eps max_iter min_iter e'' (it + k)"
      if "k < Suc N" "sor_iterate body k (s, e) = Inr (s'', e'')" for k s'' e''
    proof (cases k)
      case 0
      then show ?thesis using that nostop by simp
    next
      case (Suc k')
      then have "sor_iterate body k' (s1, e1) = Inr (s'', e'')" using that b by simp
      moreover have "k' < N" using that Suc by simp
      ultimately show ?thesis using before Suc by simp
    qed
    show ?thesis
      using run' iter' I' bound stop before'
      by (intro exI[of _ "Suc N"] exI[of _ s'] exI[of _ e']) (simp del: sor_iterate.simps)
  qed
qed


lemma for_each_product3:
  "for_each (\<lambda>i. for_each (\<lambda>j. for_each (\<lambda>k. f (i, j, k)) ks) js) is s =
   for_each f (List.product is (List.product js ks)) s"
proof -
  have inner: "for_each (\<lambda>j. for_each (\<lambda>k. f (i, j, k)) ks) js = for_each (\<lambda>jk. f (i, jk)) (List.product js ks)" for i
    using for_each_product[of "\<lambda>jk. f (i, jk)" ks js] by (intro ext) simp
  show ?thesis unfolding inner by (rule for_each_product)
qed

lemma fold_product3:
  "fold (\<lambda>i. fold (\<lambda>j. fold (\<lambda>k. f (i, j, k)) ks) js) is s =
   fold f (List.product is (List.product js ks)) s"
proof -
  have inner: "fold (\<lambda>j. fold (\<lambda>k. f (i, j, k)) ks) js = fold (\<lambda>jk. f (i, jk)) (List.product js ks)" for i
    using fold_product[of "\<lambda>jk. f (i, jk)" ks js] by (intro ext) simp
  show ?thesis unfolding inner by (rule fold_product)
qed

lemma shape3d_nth: "shape3d nx ny nz U \<Longrightarrow> i < nx \<Longrightarrow> shape2d ny nz (U ! i)"
  by (auto simp: shape3d_def list_all_length)

lemma set3_set2: "set3 U i j k v = U[i := set2 (U ! i) j k v]"
  by (simp add: set3_def set2_def)

lemma shape3d_set3: "shape3d nx ny nz U \<Longrightarrow> shape3d nx ny nz (set3 U i j k v)"
proof (cases "i < length U")
  case True
  assume "shape3d nx ny nz U"
  then show ?thesis using True
    by (auto simp: shape3d_def set3_set2 list_all_length nth_list_update intro: shape2d_set2)
next
  case False
  assume "shape3d nx ny nz U"
  then show ?thesis using False by (simp add: set3_set2 list_update_beyond)
qed

lemma field3d_set3:
  assumes "shape3d nx ny nz U" "i < nx" "j < ny" "k < nz"
  shows "field3d (set3 U i j k v) = (field3d U)((i, j, k) := v)"
proof
  fix q :: "nat \<times> nat \<times> nat"
  obtain i' j' k' where q: "q = (i', j', k')" by (cases q)
  have len: "length U = nx" using assms by (simp add: shape3d_def)
  have sh: "shape2d ny nz (U ! i)" by (rule shape3d_nth[OF assms(1,2)])
  have f2: "field2d (set2 (U ! i) j k v) = (field2d (U ! i))((j, k) := v)"
    by (rule field2d_set2[OF sh assms(3,4)])
  show "field3d (set3 U i j k v) q = ((field3d U)((i, j, k) := v)) q"
  proof (cases "i' = i")
    case True
    have "field3d (set3 U i j k v) q = field2d (set2 (U ! i) j k v) (j', k')"
      using True len assms(2) by (simp add: q field3d_def field2d_def set3_set2)
    also have "\<dots> = ((field2d (U ! i))((j, k) := v)) (j', k')" by (simp only: f2)
    also have "\<dots> = ((field3d U)((i, j, k) := v)) q"
      using True by (simp add: q field3d_def field2d_def)
    finally show ?thesis .
  next
    case False
    then show ?thesis by (simp add: q field3d_def set3_set2)
  qed
qed

lemma interior3d_iff:
  "(i, j, k) \<in> set (interior3d nx ny nz) \<longleftrightarrow>
     1 \<le> i \<and> i + 1 < nx \<and> 1 \<le> j \<and> j + 1 < ny \<and> 1 \<le> k \<and> k + 1 < nz"
  by (auto simp: interior3d_def)


lemma inv_interior3d_nth:
  assumes "shape3d nx ny nz b" "(i, j, k) \<in> set (interior3d nx ny nz)"
  shows "inv_interior3d b ! i ! j ! k = recip (b ! i ! j ! k)"
proof -
  from assms(2) have ijk: "1 \<le> i" "i + 1 < nx" "1 \<le> j" "j + 1 < ny" "1 \<le> k" "k + 1 < nz"
    by (auto simp: interior3d_iff)
  have l1: "length b = nx" using assms(1) by (simp add: shape3d_def)
  have "i < nx" "j < ny" using ijk by simp_all
  have sh: "shape2d ny nz (b ! i)" by (rule shape3d_nth[OF assms(1) \<open>i < nx\<close>])
  then have l2: "length (b ! i) = ny" by (simp add: shape2d_def)
  have l3: "length (b ! i ! j) = nz" by (rule shape2d_nth[OF sh \<open>j < ny\<close>])
  show ?thesis using ijk l1 l2 l3 by (simp add: inv_interior3d_def)
qed

lemma relax3d_node_view:
  assumes U: "shape3d nx ny nz U" and ijk: "(i, j, k) \<in> set (interior3d nx ny nz)"
    and r: "inv_b ! i ! j ! k = recip (b ! i ! j ! k)" and nz: "b ! i ! j ! k \<noteq> 0"
  shows "\<exists>U'. relax3d_node ax ay az cx cy cz inv_b d_rhs omega i j k U = Inr U' \<and>
           shape3d nx ny nz U' \<and>
           field3d U' = (field3d U)((i, j, k) := sor3d ax ay az cx cy cz b d_rhs omega (field3d U) (i, j, k))"
proof -
  from ijk have lt: "i < nx" "j < ny" "k < nz" by (auto simp: interior3d_iff)
  define t where "t = (ax ! i ! j ! k * U ! (i - 1) ! j ! k + cx ! i ! j ! k * U ! (i + 1) ! j ! k +
                   ay ! i ! j ! k * U ! i ! (j - 1) ! k + cy ! i ! j ! k * U ! i ! (j + 1) ! k +
                   az ! i ! j ! k * U ! i ! j ! (k - 1) + cz ! i ! j ! k * U ! i ! j ! (k + 1) -
                   d_rhs ! i ! j ! k) * (1 / b ! i ! j ! k)"
  have node: "relax3d_node ax ay az cx cy cz inv_b d_rhs omega i j k U =
              Inr (set3 U i j k (omega * t + (1 - omega) * U ! i ! j ! k))"
    using r nz by (simp add: relax3d_node_def recip_def t_def)
  have val: "omega * t + (1 - omega) * U ! i ! j ! k =
             sor3d ax ay az cx cy cz b d_rhs omega (field3d U) (i, j, k)"
    by (simp add: sor3d_def gs_target3d_def field3d_def t_def)
  show ?thesis
    unfolding node val using shape3d_set3[OF U] field3d_set3[OF U lt] by blast
qed

lemma relax3d_sweep_view:
  assumes U: "shape3d nx ny nz U"
    and r: "\<forall>(i, j, k)\<in>set (interior3d nx ny nz). inv_b ! i ! j ! k = recip (b ! i ! j ! k) \<and> b ! i ! j ! k \<noteq> 0"
  shows "\<exists>U'. relax3d_sweep ax ay az cx cy cz inv_b d_rhs nx ny nz omega U = Inr U' \<and>
           shape3d nx ny nz U' \<and>
           field3d U' = gs_sweep (sor3d ax ay az cx cy cz b d_rhs omega) (interior3d nx ny nz) (field3d U)"
proof -
  have eq: "relax3d_sweep ax ay az cx cy cz inv_b d_rhs nx ny nz omega U =
        for_each (\<lambda>(i, j, k). relax3d_node ax ay az cx cy cz inv_b d_rhs omega i j k)
          (interior3d nx ny nz) U"
    unfolding relax3d_sweep_def interior3d_def
    by (subst for_each_product3[symmetric]) simp
  show ?thesis unfolding eq
  proof (rule for_each_view[where I = "shape3d nx ny nz" and view = field3d, OF U])
    fix p and s :: grid3 assume p: "p \<in> set (interior3d nx ny nz)" and s: "shape3d nx ny nz s"
    obtain i j k where pij: "p = (i, j, k)" by (cases p)
    from r p pij have rr: "inv_b ! i ! j ! k = recip (b ! i ! j ! k)" and nz: "b ! i ! j ! k \<noteq> 0" by auto
    from p pij have p': "(i, j, k) \<in> set (interior3d nx ny nz)" by simp
    from relax3d_node_view[OF s p' rr nz]
    show "\<exists>s'. (case p of (i, j, k) \<Rightarrow> relax3d_node ax ay az cx cy cz inv_b d_rhs omega i j k) s = Inr s' \<and>
            shape3d nx ny nz s' \<and>
            field3d s' = (field3d s)(p := sor3d ax ay az cx cy cz b d_rhs omega (field3d s) p)"
      by (simp add: pij)
  qed
qed


lemma max_diff3d_Max:
  "max_diff3d nx ny nz U Uo =
     Max (insert 0 ((\<lambda>(i, j, k). \<bar>U ! i ! j ! k - Uo ! i ! j ! k\<bar>) ` set (interior3d nx ny nz)))"
proof -
  have "max_diff3d nx ny nz U Uo =
        fold (\<lambda>p e. let d = (case p of (i, j, k) \<Rightarrow> \<bar>U ! i ! j ! k - Uo ! i ! j ! k\<bar>)
                     in if d > e then d else e)
          (interior3d nx ny nz) 0"
    unfolding max_diff3d_def interior3d_def
    by (subst fold_product3[symmetric]) simp
  then show ?thesis by (simp only: fold_max)
qed

lemma shape3d_eqI:
  assumes "shape3d nx ny nz A" "shape3d nx ny nz B"
    "\<And>i j k. i < nx \<Longrightarrow> j < ny \<Longrightarrow> k < nz \<Longrightarrow> A ! i ! j ! k = B ! i ! j ! k"
  shows "A = B"
proof (rule nth_equalityI)
  show "length A = length B" using assms by (simp add: shape3d_def)
next
  fix i assume i: "i < length A"
  then have "i < nx" using assms(1) by (simp add: shape3d_def)
  show "A ! i = B ! i"
    by (rule shape2d_eqI[OF shape3d_nth[OF assms(1) \<open>i < nx\<close>] shape3d_nth[OF assms(2) \<open>i < nx\<close>]])
       (rule assms(3)[OF \<open>i < nx\<close>])
qed

lemma copy_field3d_eq:
  assumes U: "shape3d nx ny nz U" and Uo: "shape3d nx ny nz U_old"
  shows "copy_field3d nx ny nz U U_old = U"
proof -
  let ?ps = "List.product [0..<nx] (List.product [0..<ny] [0..<nz])"
  let ?G = "\<lambda>(v :: nat \<times> nat \<times> nat \<Rightarrow> real) p. field3d U p"
  have eq: "copy_field3d nx ny nz U U_old =
            fold (\<lambda>(i, j, k) Uo. set3 Uo i j k (U ! i ! j ! k)) ?ps U_old"
    unfolding copy_field3d_def by (subst fold_product3[symmetric]) simp
  have srt: "sorted_wrt (<) ?ps" by (intro sorted_wrt_product sorted_wrt_upt)
  have view: "shape3d nx ny nz (copy_field3d nx ny nz U U_old) \<and>
        field3d (copy_field3d nx ny nz U U_old) = gs_sweep ?G ?ps (field3d U_old)"
    unfolding eq
  proof (rule fold_view[where I = "shape3d nx ny nz" and view = field3d, OF Uo])
    fix p and s :: grid3 assume p: "p \<in> set ?ps" and s: "shape3d nx ny nz s"
    obtain i j k where pij: "p = (i, j, k)" by (cases p)
    from p pij have lt: "i < nx" "j < ny" "k < nz" by auto
    show "shape3d nx ny nz ((case p of (i, j, k) \<Rightarrow> \<lambda>Uo. set3 Uo i j k (U ! i ! j ! k)) s) \<and>
          field3d ((case p of (i, j, k) \<Rightarrow> \<lambda>Uo. set3 Uo i j k (U ! i ! j ! k)) s) =
          (field3d s)(p := field3d U p)"
      using shape3d_set3[OF s] field3d_set3[OF s lt] by (simp add: pij field3d_def)
  qed
  show ?thesis
  proof (rule shape3d_eqI[OF _ U])
    show "shape3d nx ny nz (copy_field3d nx ny nz U U_old)" using view by simp
  next
    fix i j k assume lt: "i < nx" "j < ny" "k < nz"
    then have p: "(i, j, k) \<in> set ?ps" by simp
    from gs_sweep_sorted[OF srt p, of ?G "field3d U_old"]
    have "gs_sweep ?G ?ps (field3d U_old) (i, j, k) = field3d U (i, j, k)" by auto
    then have "field3d (copy_field3d nx ny nz U U_old) (i, j, k) = field3d U (i, j, k)"
      using view by simp
    then show "copy_field3d nx ny nz U U_old ! i ! j ! k = U ! i ! j ! k" by (simp add: field3d_def)
  qed
qed

lemma relax3d_iteration_view:
  assumes U: "shape3d nx ny nz U" and Uo: "shape3d nx ny nz U_old"
    and r: "\<forall>(i, j, k)\<in>set (interior3d nx ny nz). inv_b ! i ! j ! k = recip (b ! i ! j ! k) \<and> b ! i ! j ! k \<noteq> 0"
  shows "\<exists>U'. relax3d_iteration ax ay az cx cy cz inv_b d_rhs nx ny nz omega (U, U_old) =
             Inr ((U', U), Max (insert 0 ((\<lambda>(i, j, k). \<bar>U' ! i ! j ! k - U ! i ! j ! k\<bar>) ` set (interior3d nx ny nz)))) \<and>
           shape3d nx ny nz U' \<and>
           field3d U' = gs_sweep (sor3d ax ay az cx cy cz b d_rhs omega) (interior3d nx ny nz) (field3d U)"
proof -
  from relax3d_sweep_view[OF U r, of ax ay az cx cy cz d_rhs omega] obtain U' where
    sw: "relax3d_sweep ax ay az cx cy cz inv_b d_rhs nx ny nz omega U = Inr U'" and
    sh: "shape3d nx ny nz U'" and
    f: "field3d U' = gs_sweep (sor3d ax ay az cx cy cz b d_rhs omega) (interior3d nx ny nz) (field3d U)"
    by blast
  have "relax3d_iteration ax ay az cx cy cz inv_b d_rhs nx ny nz omega (U, U_old) =
        Inr ((U', U), max_diff3d nx ny nz U' U)"
    by (simp add: relax3d_iteration_def sw copy_field3d_eq[OF U Uo])
  then show ?thesis using sh f by (simp add: max_diff3d_Max)
qed

lemma relax_iteration_view:
  assumes U: "shape2d n m U"
    and r: "\<forall>(i, j)\<in>set (interior2d n m). inv_b ! i ! j = recip (b ! i ! j) \<and> b ! i ! j \<noteq> 0"
  shows "\<exists>U' e'. relax_iteration ax ay cx cy inv_b d_rhs n m alfa U = Inr (U', e') \<and>
           shape2d n m U' \<and>
           field2d U' = gs_sweep (sor2d ax ay cx cy b d_rhs alfa) (interior2d n m) (field2d U) \<and>
           \<bar>alfa\<bar> * e' = Max (insert 0 ((\<lambda>(i, j). \<bar>U' ! i ! j - U ! i ! j\<bar>) ` set (interior2d n m)))"
proof -
  have eq: "relax_iteration ax ay cx cy inv_b d_rhs n m alfa U =
        for_each (\<lambda>(i, j). relax_node ax ay cx cy inv_b d_rhs alfa i j) (interior2d n m) (U, 0)"
    unfolding relax_iteration_def interior2d_def
    by (subst for_each_product[symmetric]) simp
  have d: "distinct (interior2d n m)" by (rule sorted_wrt_less_distinct[OF interior2d_sorted])
  from relax_prefix_view[OF U d subset_refl r, of ax ay cx cy d_rhs alfa 0] obtain U' e' where
    run: "for_each (\<lambda>(i, j). relax_node ax ay cx cy inv_b d_rhs alfa i j) (interior2d n m) (U, 0) = Inr (U', e')"
    and sh: "shape2d n m U'"
    and f: "field2d U' = gs_sweep (sor2d ax ay cx cy b d_rhs alfa) (interior2d n m) (field2d U)"
    and e: "\<bar>alfa\<bar> * e' = Max (insert (\<bar>alfa\<bar> * 0)
              ((\<lambda>p. \<bar>gs_sweep (sor2d ax ay cx cy b d_rhs alfa) (interior2d n m) (field2d U) p - field2d U p\<bar>)
                ` set (interior2d n m)))"
    by blast
  have fe: "(\<lambda>p. \<bar>gs_sweep (sor2d ax ay cx cy b d_rhs alfa) (interior2d n m) (field2d U) p - field2d U p\<bar>) =
        (\<lambda>(i, j). \<bar>U' ! i ! j - U ! i ! j\<bar>)"
    unfolding f[symmetric] by (rule ext) (simp add: field2d_def split: prod.splits)
  have "\<bar>alfa\<bar> * e' = Max (insert 0 ((\<lambda>(i, j). \<bar>U' ! i ! j - U ! i ! j\<bar>) ` set (interior2d n m)))"
    using e unfolding fe by simp
  with run sh f show ?thesis unfolding eq by blast
qed

lemma gs_field2d:
  assumes "field2d U' = gs_sweep (sor2d ax ay cx cy b d_rhs omega) (interior2d n m) (field2d U)"
  shows "gauss_seidel2d ax ay cx cy b d_rhs n m omega U U'"
  unfolding gauss_seidel2d_def
proof (intro ballI, clarify)
  fix i j assume ij: "(i, j) \<in> set (interior2d n m)"
  from gs2d_char[OF ij, of ax ay cx cy b d_rhs omega "field2d U", folded assms]
  show "U' ! i ! j =
          omega * ((ax ! i ! j * U' ! (i - 1) ! j + cx ! i ! j * U ! (i + 1) ! j +
                    ay ! i ! j * U' ! i ! (j - 1) + cy ! i ! j * U ! i ! (j + 1) -
                    d_rhs ! i ! j) / b ! i ! j)
          + (1 - omega) * U ! i ! j"
    by (simp add: field2d_def)
qed


lemma inv_interior2d_ok:
  assumes "shape2d n m b" "\<forall>(i, j)\<in>set (interior2d n m). b ! i ! j \<noteq> 0"
  shows "\<forall>(i, j)\<in>set (interior2d n m). inv_interior2d b ! i ! j = recip (b ! i ! j) \<and> b ! i ! j \<noteq> 0"
  using assms inv_interior2d_nth[OF assms(1)] by auto

lemma inv_all2d_ok:
  assumes "shape2d n m b" "\<forall>(i, j)\<in>set (interior2d n m). b ! i ! j \<noteq> 0"
  shows "\<forall>(i, j)\<in>set (interior2d n m). inv_all2d b ! i ! j = recip (b ! i ! j) \<and> b ! i ! j \<noteq> 0"
  using assms inv_all2d_nth[OF assms(1)] by (auto simp: interior2d_iff)

lemma inv_interior3d_ok:
  assumes "shape3d nx ny nz b" "\<forall>(i, j, k)\<in>set (interior3d nx ny nz). b ! i ! j ! k \<noteq> 0"
  shows "\<forall>(i, j, k)\<in>set (interior3d nx ny nz).
           inv_interior3d b ! i ! j ! k = recip (b ! i ! j ! k) \<and> b ! i ! j ! k \<noteq> 0"
  using assms inv_interior3d_nth[OF assms(1)] by auto



lemma for_each_preserves:
  assumes "for_each f ps s = Inr s'" and "I s"
    and "\<And>p s s'. p \<in> set ps \<Longrightarrow> I s \<Longrightarrow> f p s = Inr s' \<Longrightarrow> I s'"
  shows "I s'"
  using assms
proof (induction ps arbitrary: s)
  case Nil
  then show ?case by simp
next
  case (Cons p ps)
  from Cons.prems(1) obtain s1 where s1: "f p s = Inr s1" and run: "for_each f ps s1 = Inr s'"
    by (auto split: sum.splits)
  have "I s1" using Cons.prems(3)[OF _ Cons.prems(2) s1] by simp
  show ?case by (rule Cons.IH[OF run \<open>I s1\<close>]) (rule Cons.prems(3), simp_all)
qed

lemma sor_loop_total:
  assumes total: "\<And>s. I s \<Longrightarrow> \<exists>s' e'. body s = Inr (s', e') \<and> I s'"
  shows "I s \<Longrightarrow> \<exists>s' e' it'. sor_loop body eps max_iter min_iter (s, e, it) = Inr (s', e', it') \<and> I s'"
proof (induction "nat (max max_iter min_iter - int it)" arbitrary: s e it)
  case 0
  then have F: "\<not> ((e > eps \<and> int it < max_iter) \<or> int it < min_iter)" by auto
  have "sor_loop body eps max_iter min_iter (s, e, it) = Inr (s, e, it)"
    by (subst sor_loop.simps) (simp only: F if_False)
  then show ?case using 0 by blast
next
  case (Suc n)
  show ?case
  proof (cases "(e > eps \<and> int it < max_iter) \<or> int it < min_iter")
    case False
    have "sor_loop body eps max_iter min_iter (s, e, it) = Inr (s, e, it)"
      by (subst sor_loop.simps) (simp only: False if_False)
    then show ?thesis using Suc.prems by blast
  next
    case True
    from total[OF Suc.prems] obtain s1 e1 where b: "body s = Inr (s1, e1)" and I1: "I s1" by blast
    have n: "n = nat (max max_iter min_iter - int (it + 1))" using Suc.hyps(2) by simp
    from Suc.hyps(1)[OF n I1, of e1] obtain s' e' it' where
      "sor_loop body eps max_iter min_iter (s1, e1, it + 1) = Inr (s', e', it')" "I s'" by blast
    then show ?thesis using True b by (subst sor_loop.simps) simp
  qed
qed

lemma field2d_set2_other: "q \<noteq> (i, j) \<Longrightarrow> field2d (set2 U i j v) q = field2d U q"
proof (cases "i < length U")
  case True
  assume "q \<noteq> (i, j)"
  then show ?thesis using True
    by (cases q) (auto simp: field2d_def set2_def nth_list_update)
next
  case False
  then show ?thesis by (simp add: set2_def list_update_beyond)
qed

lemma field3d_set3_other: "q \<noteq> (i, j, k) \<Longrightarrow> field3d (set3 U i j k v) q = field3d U q"
proof -
  assume q: "q \<noteq> (i, j, k)"
  obtain i' j' k' where qq: "q = (i', j', k')" by (cases q)
  show ?thesis
  proof (cases "i' = i \<and> i < length U")
    case True
    then have "(j', k') \<noteq> (j, k)" using q qq by simp
    from field2d_set2_other[OF this, of "U ! i" v] True show ?thesis
      by (simp add: qq field3d_def field2d_def set3_set2)
  next
    case False
    then show ?thesis
      by (cases "i < length U") (auto simp: qq field3d_def set3_set2 list_update_beyond)
  qed
qed

lemma relax2d_sweep_frame:
  assumes "relax2d_sweep ax ay cx cy inv_b d_rhs n m omega U = Inr U'"
    and "q \<notin> set (interior2d n m)"
  shows "field2d U' q = field2d U q"
proof -
  have run: "for_each (\<lambda>(i, j). relax2d_node ax ay cx cy inv_b d_rhs omega i j) (interior2d n m) U = Inr U'"
    using assms(1) unfolding relax2d_sweep_def interior2d_def
    by (subst for_each_product[symmetric]) simp
  show ?thesis
  proof (rule for_each_preserves[where I = "\<lambda>W. field2d W q = field2d U q", OF run refl])
    fix p and s s' :: grid
    assume p: "p \<in> set (interior2d n m)" and s: "field2d s q = field2d U q"
      and st: "(case p of (i, j) \<Rightarrow> relax2d_node ax ay cx cy inv_b d_rhs omega i j) s = Inr s'"
    obtain i j where pij: "p = (i, j)" by (cases p)
    from st obtain v where "s' = set2 s i j v"
      by (auto simp: pij relax2d_node_def Let_def split: option.splits)
    moreover have "q \<noteq> (i, j)" using p pij assms(2) by auto
    ultimately show "field2d s' q = field2d U q" using s by (simp add: field2d_set2_other)
  qed
qed

lemma relax_iteration_frame:
  assumes "relax_iteration ax ay cx cy inv_b d_rhs n m alfa U = Inr (U', e)"
    and "q \<notin> set (interior2d n m)"
  shows "field2d U' q = field2d U q"
proof -
  have run: "for_each (\<lambda>(i, j). relax_node ax ay cx cy inv_b d_rhs alfa i j) (interior2d n m) (U, 0) = Inr (U', e)"
    using assms(1) unfolding relax_iteration_def interior2d_def
    by (subst for_each_product[symmetric]) simp
  have "field2d (fst (U', e)) q = field2d U q"
  proof (rule for_each_preserves[where I = "\<lambda>W. field2d (fst W) q = field2d U q", OF run])
    show "field2d (fst (U, 0::real)) q = field2d U q" by simp
  next
    fix p and s s' :: "grid \<times> real"
    assume p: "p \<in> set (interior2d n m)" and s: "field2d (fst s) q = field2d U q"
      and st: "(case p of (i, j) \<Rightarrow> relax_node ax ay cx cy inv_b d_rhs alfa i j) s = Inr s'"
    obtain i j where pij: "p = (i, j)" by (cases p)
    from st obtain v where "fst s' = set2 (fst s) i j v"
      by (cases s) (auto simp: pij relax_node_def Let_def split: option.splits)
    moreover have "q \<noteq> (i, j)" using p pij assms(2) by auto
    ultimately show "field2d (fst s') q = field2d U q" using s by (simp add: field2d_set2_other)
  qed
  then show ?thesis by simp
qed

lemma relax3d_sweep_frame:
  assumes "relax3d_sweep ax ay az cx cy cz inv_b d_rhs nx ny nz omega U = Inr U'"
    and "q \<notin> set (interior3d nx ny nz)"
  shows "field3d U' q = field3d U q"
proof -
  have run: "for_each (\<lambda>(i, j, k). relax3d_node ax ay az cx cy cz inv_b d_rhs omega i j k)
               (interior3d nx ny nz) U = Inr U'"
    using assms(1) unfolding relax3d_sweep_def interior3d_def
    by (subst for_each_product3[symmetric]) simp
  show ?thesis
  proof (rule for_each_preserves[where I = "\<lambda>W. field3d W q = field3d U q", OF run refl])
    fix p and s s' :: grid3
    assume p: "p \<in> set (interior3d nx ny nz)" and s: "field3d s q = field3d U q"
      and st: "(case p of (i, j, k) \<Rightarrow> relax3d_node ax ay az cx cy cz inv_b d_rhs omega i j k) s = Inr s'"
    obtain i j k where pij: "p = (i, j, k)" by (cases p)
    from st obtain v where "s' = set3 s i j k v"
      by (auto simp: pij relax3d_node_def Let_def split: option.splits)
    moreover have "q \<noteq> (i, j, k)" using p pij assms(2) by auto
    ultimately show "field3d s' q = field3d U q" using s by (simp add: field3d_set3_other)
  qed
qed

lemma boundary2d_not_interior: "boundary2d n m i j \<Longrightarrow> (i, j) \<notin> set (interior2d n m)"
  by (auto simp: boundary2d_def interior2d_iff)

lemma boundary3d_not_interior: "boundary3d nx ny nz i j k \<Longrightarrow> (i, j, k) \<notin> set (interior3d nx ny nz)"
  by (auto simp: boundary3d_def interior3d_iff)

lemma relax2d_run_frame:
  assumes "relax2d_run ax ay cx cy b d_rhs n m U0 omega eps max_iter = Inr ((U, U_old), err, it)"
    and q: "q \<notin> set (interior2d n m)"
  shows "field2d U q = field2d U0 q"
proof -
  have "field2d (fst (U, U_old)) q = field2d U0 q"
  proof (rule sor_loop_invariant[where I = "\<lambda>s. field2d (fst s) q = field2d U0 q",
        OF assms(1)[unfolded relax2d_run_def]])
    show "field2d (fst (U0, U0)) q = field2d U0 q" by simp
  next
    fix s s' :: "grid \<times> grid" and e
    assume s: "field2d (fst s) q = field2d U0 q"
      and st: "relax2d_iteration ax ay cx cy (inv_interior2d b) d_rhs n m omega s = Inr (s', e)"
    from st obtain U' where "relax2d_sweep ax ay cx cy (inv_interior2d b) d_rhs n m omega (fst s) = Inr U'"
      "fst s' = U'"
      by (cases s) (auto simp: relax2d_iteration_def Let_def split: sum.splits)
    with relax2d_sweep_frame[OF _ q] s show "field2d (fst s') q = field2d U0 q" by metis
  qed
  then show ?thesis by simp
qed

lemma relax_run_frame:
  assumes "relax_run ax ay cx cy b d_rhs n m U0 alfa eps max_iter = Inr (U, err, it)"
    and q: "q \<notin> set (interior2d n m)"
  shows "field2d U q = field2d U0 q"
proof (rule sor_loop_invariant[where I = "\<lambda>s. field2d s q = field2d U0 q",
        OF assms(1)[unfolded relax_run_def relax_loop_sor]])
  show "field2d U0 q = field2d U0 q" by simp
next
  fix s s' :: grid and e
  assume s: "field2d s q = field2d U0 q"
    and st: "relax_iteration ax ay cx cy (inv_all2d b) d_rhs n m alfa s = Inr (s', e)"
  from relax_iteration_frame[OF st q] s show "field2d s' q = field2d U0 q" by simp
qed

lemma relax3d_run_frame:
  assumes "relax3d_run ax ay az cx cy cz b d_rhs nx ny nz U0 omega eps max_iter min_iter =
             Inr ((U, U_old), err, it)"
    and q: "q \<notin> set (interior3d nx ny nz)"
  shows "field3d U q = field3d U0 q"
proof -
  have "field3d (fst (U, U_old)) q = field3d U0 q"
  proof (rule sor_loop_invariant[where I = "\<lambda>s. field3d (fst s) q = field3d U0 q",
        OF assms(1)[unfolded relax3d_run_def]])
    show "field3d (fst (U0, U0)) q = field3d U0 q" by simp
  next
    fix s s' :: "grid3 \<times> grid3" and e
    assume s: "field3d (fst s) q = field3d U0 q"
      and st: "relax3d_iteration ax ay az cx cy cz (inv_interior3d b) d_rhs nx ny nz omega s = Inr (s', e)"
    from st obtain U' where
      "relax3d_sweep ax ay az cx cy cz (inv_interior3d b) d_rhs nx ny nz omega (fst s) = Inr U'"
      "fst s' = U'"
      by (cases s) (auto simp: relax3d_iteration_def Let_def split: sum.splits)
    with relax3d_sweep_frame[OF _ q] s show "field3d (fst s') q = field3d U0 q" by metis
  qed
  then show ?thesis by simp
qed

text \<open>
  Claim C2. The field a solver returns (relax2d, relax of lab2, relax3d) equals the
  initial guess at every node of the boundary ring, that is at every node whose index
  is \<open>0\<close> or the last one on some axis. This holds for every input on which the model
  returns a field; the witness runs each solver on a grid whose diagonal is zero on
  the ring.
\<close>

theorem boundary_ring_untouched:
  "(relax2d ax ay cx cy b d_rhs n m U0 omega eps max_iter = Inr U \<longrightarrow>
      (\<forall>i j. boundary2d n m i j \<longrightarrow> U ! i ! j = U0 ! i ! j)) \<and>
   (relax ax ay cx cy b d_rhs n m U0 omega eps max_iter = Inr U \<longrightarrow>
      (\<forall>i j. boundary2d n m i j \<longrightarrow> U ! i ! j = U0 ! i ! j)) \<and>
   (relax3d ax3 ay3 az3 cx3 cy3 cz3 b3 d_rhs3 nx ny nz V0 omega eps max_iter min_iter = Inr V \<longrightarrow>
      (\<forall>i j k. boundary3d nx ny nz i j k \<longrightarrow> V ! i ! j ! k = V0 ! i ! j ! k))"
proof (intro conjI impI allI)
  fix i j assume run: "relax2d ax ay cx cy b d_rhs n m U0 omega eps max_iter = Inr U"
    and bd: "boundary2d n m i j"
  from run obtain U_old err it where
    "relax2d_run ax ay cx cy b d_rhs n m U0 omega eps max_iter = Inr ((U, U_old), err, it)"
    by (auto simp: relax2d_def split: sum.splits)
  from relax2d_run_frame[OF this boundary2d_not_interior[OF bd]]
  show "U ! i ! j = U0 ! i ! j" by (simp add: field2d_def)
next
  fix i j assume run: "relax ax ay cx cy b d_rhs n m U0 omega eps max_iter = Inr U"
    and bd: "boundary2d n m i j"
  from run obtain err it where
    "relax_run ax ay cx cy b d_rhs n m U0 omega eps max_iter = Inr (U, err, it)"
    by (auto simp: relax_def split: sum.splits)
  from relax_run_frame[OF this boundary2d_not_interior[OF bd]]
  show "U ! i ! j = U0 ! i ! j" by (simp add: field2d_def)
next
  fix i j k
  assume run: "relax3d ax3 ay3 az3 cx3 cy3 cz3 b3 d_rhs3 nx ny nz V0 omega eps max_iter min_iter = Inr V"
    and bd: "boundary3d nx ny nz i j k"
  from run obtain U_old err it where
    "relax3d_run ax3 ay3 az3 cx3 cy3 cz3 b3 d_rhs3 nx ny nz V0 omega eps max_iter min_iter =
       Inr ((V, U_old), err, it)"
    by (auto simp: relax3d_def split: sum.splits)
  from relax3d_run_frame[OF this boundary3d_not_interior[OF bd]]
  show "V ! i ! j ! k = V0 ! i ! j ! k" by (simp add: field3d_def)
qed

lemmas ex_defs = ex_ones2_def ex_zero2_def ex_b2_def ex_U2_def ex_ones3_def ex_zero3_def ex_b3_def ex_U3_def

lemma ex_shapes:
  "shape2d 3 3 ex_ones2" "shape2d 3 3 ex_zero2" "shape2d 3 3 ex_b2" "shape2d 3 3 ex_U2"
  "shape3d 3 3 3 ex_ones3" "shape3d 3 3 3 ex_zero3" "shape3d 3 3 3 ex_b3" "shape3d 3 3 3 ex_U3"
  by (simp_all add: ex_defs shape2d_def shape3d_def)

lemma ex_nonzero:
  "\<forall>(i, j)\<in>set (interior2d 3 3). ex_b2 ! i ! j \<noteq> 0"
  "\<forall>(i, j, k)\<in>set (interior3d 3 3 3). ex_b3 ! i ! j ! k \<noteq> 0"
  by (simp_all add: ex_defs interior2d_def interior3d_def)

lemma relax2d_body_total:
  assumes b: "shape2d n m b" and nz: "\<forall>(i, j)\<in>set (interior2d n m). b ! i ! j \<noteq> 0"
    and s: "shape2d n m (fst s) \<and> shape2d n m (snd s)"
  shows "\<exists>s' e'. relax2d_iteration ax ay cx cy (inv_interior2d b) d_rhs n m omega s = Inr (s', e') \<and>
           (shape2d n m (fst s') \<and> shape2d n m (snd s'))"
proof -
  obtain U Uo where su: "s = (U, Uo)" by (cases s)
  from s su have U: "shape2d n m U" and Uo: "shape2d n m Uo" by simp_all
  from relax2d_iteration_view[OF U Uo inv_interior2d_ok[OF b nz], of ax ay cx cy d_rhs omega]
  show ?thesis unfolding su using U by auto
qed

lemma relax_body_total:
  assumes b: "shape2d n m b" and nz: "\<forall>(i, j)\<in>set (interior2d n m). b ! i ! j \<noteq> 0"
    and s: "shape2d n m s"
  shows "\<exists>s' e'. relax_iteration ax ay cx cy (inv_all2d b) d_rhs n m alfa s = Inr (s', e') \<and> shape2d n m s'"
  using relax_iteration_view[OF s inv_all2d_ok[OF b nz], of ax ay cx cy d_rhs alfa] by blast

lemma relax3d_body_total:
  assumes b: "shape3d nx ny nz b" and nz: "\<forall>(i, j, k)\<in>set (interior3d nx ny nz). b ! i ! j ! k \<noteq> 0"
    and s: "shape3d nx ny nz (fst s) \<and> shape3d nx ny nz (snd s)"
  shows "\<exists>s' e'. relax3d_iteration ax ay az cx cy cz (inv_interior3d b) d_rhs nx ny nz omega s = Inr (s', e') \<and>
           (shape3d nx ny nz (fst s') \<and> shape3d nx ny nz (snd s'))"
proof -
  obtain U Uo where su: "s = (U, Uo)" by (cases s)
  from s su have U: "shape3d nx ny nz U" and Uo: "shape3d nx ny nz Uo" by simp_all
  from relax3d_iteration_view[OF U Uo inv_interior3d_ok[OF b nz], of ax ay az cx cy cz d_rhs omega]
  show ?thesis unfolding su using U by auto
qed

lemma relax2d_total:
  assumes b: "shape2d n m b" and nz: "\<forall>(i, j)\<in>set (interior2d n m). b ! i ! j \<noteq> 0"
    and U0: "shape2d n m U0"
  shows "\<exists>U. relax2d ax ay cx cy b d_rhs n m U0 omega eps max_iter = Inr U"
proof -
  have "\<exists>s' e' it'. sor_loop (relax2d_iteration ax ay cx cy (inv_interior2d b) d_rhs n m omega)
           eps max_iter 100 ((U0, U0), 1, 0) = Inr (s', e', it') \<and>
           (shape2d n m (fst s') \<and> shape2d n m (snd s'))"
    by (rule sor_loop_total[where I = "\<lambda>s. shape2d n m (fst s) \<and> shape2d n m (snd s)"])
       (rule relax2d_body_total[OF b nz], simp_all add: U0)
  then show ?thesis by (auto simp: relax2d_def relax2d_run_def)
qed

lemma relax_total:
  assumes b: "shape2d n m b" and nz: "\<forall>(i, j)\<in>set (interior2d n m). b ! i ! j \<noteq> 0"
    and U0: "shape2d n m U0"
  shows "\<exists>U. relax ax ay cx cy b d_rhs n m U0 alfa eps max_iter = Inr U"
proof -
  have "\<exists>s' e' it'. sor_loop (relax_iteration ax ay cx cy (inv_all2d b) d_rhs n m alfa)
           eps max_iter 0 (U0, 1, 0) = Inr (s', e', it') \<and> shape2d n m s'"
    by (rule sor_loop_total[where I = "shape2d n m"])
       (rule relax_body_total[OF b nz], simp_all add: U0)
  then show ?thesis by (auto simp: relax_def relax_run_def relax_loop_sor)
qed

lemma relax3d_total:
  assumes b: "shape3d nx ny nz b" and nz: "\<forall>(i, j, k)\<in>set (interior3d nx ny nz). b ! i ! j ! k \<noteq> 0"
    and U0: "shape3d nx ny nz U0"
  shows "\<exists>U. relax3d ax ay az cx cy cz b d_rhs nx ny nz U0 omega eps max_iter min_iter = Inr U"
proof -
  have "\<exists>s' e' it'. sor_loop (relax3d_iteration ax ay az cx cy cz (inv_interior3d b) d_rhs nx ny nz omega)
           eps max_iter min_iter ((U0, U0), 1, 0) = Inr (s', e', it') \<and>
           (shape3d nx ny nz (fst s') \<and> shape3d nx ny nz (snd s'))"
    by (rule sor_loop_total[where I = "\<lambda>s. shape3d nx ny nz (fst s) \<and> shape3d nx ny nz (snd s)"])
       (rule relax3d_body_total[OF b nz], simp_all add: U0)
  then show ?thesis by (auto simp: relax3d_def relax3d_run_def)
qed

theorem boundary_ring_untouched_witness:
  "(\<exists>U. relax2d ex_ones2 ex_ones2 ex_ones2 ex_ones2 ex_b2 ex_zero2 3 3 ex_U2 (3 / 2) (1 / 10) 200 = Inr U \<and>
        (\<forall>i j. boundary2d 3 3 i j \<longrightarrow> U ! i ! j = ex_U2 ! i ! j)) \<and>
   (\<exists>U. relax ex_ones2 ex_ones2 ex_ones2 ex_ones2 ex_b2 ex_zero2 3 3 ex_U2 (3 / 2) (1 / 10) 200 = Inr U \<and>
        (\<forall>i j. boundary2d 3 3 i j \<longrightarrow> U ! i ! j = ex_U2 ! i ! j)) \<and>
   (\<exists>V. relax3d ex_ones3 ex_ones3 ex_ones3 ex_ones3 ex_ones3 ex_ones3 ex_b3 ex_zero3 3 3 3 ex_U3
          (3 / 2) (1 / 10) 200 10 = Inr V \<and>
        (\<forall>i j k. boundary3d 3 3 3 i j k \<longrightarrow> V ! i ! j ! k = ex_U3 ! i ! j ! k))"
proof -
  obtain U1 where 1: "relax2d ex_ones2 ex_ones2 ex_ones2 ex_ones2 ex_b2 ex_zero2 3 3 ex_U2 (3 / 2) (1 / 10) 200 = Inr U1"
    using relax2d_total[OF ex_shapes(3) ex_nonzero(1) ex_shapes(4)] by blast
  obtain U2 where 2: "relax ex_ones2 ex_ones2 ex_ones2 ex_ones2 ex_b2 ex_zero2 3 3 ex_U2 (3 / 2) (1 / 10) 200 = Inr U2"
    using relax_total[OF ex_shapes(3) ex_nonzero(1) ex_shapes(4)] by blast
  obtain V where 3: "relax3d ex_ones3 ex_ones3 ex_ones3 ex_ones3 ex_ones3 ex_ones3 ex_b3 ex_zero3 3 3 3 ex_U3
          (3 / 2) (1 / 10) 200 10 = Inr V"
    using relax3d_total[OF ex_shapes(7) ex_nonzero(2) ex_shapes(8)] by blast
  from boundary_ring_untouched[THEN conjunct1, rule_format, OF 1]
       boundary_ring_untouched[THEN conjunct2, THEN conjunct1, rule_format, OF 2]
       boundary_ring_untouched[THEN conjunct2, THEN conjunct2, rule_format, OF 3]
       1 2 3
  show ?thesis by blast
qed

lemma sor_loop_stops_by_rule:
  assumes total: "\<And>s. I s \<Longrightarrow> \<exists>s' e'. body s = Inr (s', e') \<and> I s'"
    and mm: "min_iter \<le> max_iter" "0 \<le> max_iter" and s0: "I s0"
  shows "stops_by_rule body eps max_iter min_iter s0 (sor_loop body eps max_iter min_iter (s0, 1, 0))"
proof -
  have "int 0 \<le> max_iter" using mm by simp
  from sor_loop_spec[of I body, OF total mm(1) s0 this, of eps 1] obtain N s' e' where
    run: "sor_loop body eps max_iter min_iter (s0, 1, 0) = Inr (s', e', N)" and
    iter: "sor_iterate body N (s0, 1) = Inr (s', e')" and
    bound: "int N \<le> max_iter" and
    stop: "stop_rule eps max_iter min_iter e' N" and
    before: "\<forall>k<N. \<forall>s'' e''. sor_iterate body k (s0, 1) = Inr (s'', e'') \<longrightarrow>
                  \<not> stop_rule eps max_iter min_iter e'' k"
    by auto
  show ?thesis
    unfolding stops_by_rule_def run using iter bound stop before
    by (auto split: sum.splits)
qed

text \<open>
  Claim C3. With \<open>max_iter \<ge> min_iter \<ge> 0\<close> the sweep loop of each solver
  terminates, and it stops exactly when the error is at most \<open>eps\<close> with at least
  \<open>min_iter\<close> sweeps done, or when \<open>max_iter\<close> sweeps are done: the number of sweeps
  never exceeds \<open>max_iter\<close>. The minimum is the literal \<open>100\<close> in relax2d and absent
  (\<open>0\<close>) in relax of lab2. The inputs are those of the data model: arrays of one
  shape, \<open>b\<close> nonzero at every interior node.
\<close>

theorem sweep_loop_stops_by_rule:
  assumes b: "shape2d n m b" and nz: "\<forall>(i, j)\<in>set (interior2d n m). b ! i ! j \<noteq> 0"
    and U0: "shape2d n m U0"
    and b3: "shape3d nx ny nz b3" and nz3: "\<forall>(i, j, k)\<in>set (interior3d nx ny nz). b3 ! i ! j ! k \<noteq> 0"
    and V0: "shape3d nx ny nz V0"
  shows "(100 \<le> max_iter \<longrightarrow>
            stops_by_rule (relax2d_iteration ax ay cx cy (inv_interior2d b) d_rhs n m omega)
              eps max_iter 100 (U0, U0)
              (relax2d_run ax ay cx cy b d_rhs n m U0 omega eps max_iter)) \<and>
         (0 \<le> max_iter \<longrightarrow>
            stops_by_rule (relax_iteration ax ay cx cy (inv_all2d b) d_rhs n m omega)
              eps max_iter 0 U0
              (relax_run ax ay cx cy b d_rhs n m U0 omega eps max_iter)) \<and>
         (0 \<le> min_iter \<and> min_iter \<le> max_iter \<longrightarrow>
            stops_by_rule (relax3d_iteration ax3 ay3 az3 cx3 cy3 cz3 (inv_interior3d b3) d_rhs3 nx ny nz omega)
              eps max_iter min_iter (V0, V0)
              (relax3d_run ax3 ay3 az3 cx3 cy3 cz3 b3 d_rhs3 nx ny nz V0 omega eps max_iter min_iter))"
proof (intro conjI impI)
  assume "100 \<le> max_iter"
  then show "stops_by_rule (relax2d_iteration ax ay cx cy (inv_interior2d b) d_rhs n m omega)
              eps max_iter 100 (U0, U0)
              (relax2d_run ax ay cx cy b d_rhs n m U0 omega eps max_iter)"
    unfolding relax2d_run_def
    by (intro sor_loop_stops_by_rule[where I = "\<lambda>s. shape2d n m (fst s) \<and> shape2d n m (snd s)"]
          relax2d_body_total[OF b nz]) (simp_all add: U0)
next
  assume "0 \<le> max_iter"
  then show "stops_by_rule (relax_iteration ax ay cx cy (inv_all2d b) d_rhs n m omega)
              eps max_iter 0 U0
              (relax_run ax ay cx cy b d_rhs n m U0 omega eps max_iter)"
    unfolding relax_run_def relax_loop_sor
    by (intro sor_loop_stops_by_rule[where I = "shape2d n m"] relax_body_total[OF b nz])
       (simp_all add: U0)
next
  assume "0 \<le> min_iter \<and> min_iter \<le> max_iter"
  then show "stops_by_rule (relax3d_iteration ax3 ay3 az3 cx3 cy3 cz3 (inv_interior3d b3) d_rhs3 nx ny nz omega)
              eps max_iter min_iter (V0, V0)
              (relax3d_run ax3 ay3 az3 cx3 cy3 cz3 b3 d_rhs3 nx ny nz V0 omega eps max_iter min_iter)"
    unfolding relax3d_run_def
    by (intro sor_loop_stops_by_rule[where I = "\<lambda>s. shape3d nx ny nz (fst s) \<and> shape3d nx ny nz (snd s)"]
          relax3d_body_total[OF b3 nz3]) (simp_all add: V0)
qed

theorem sweep_loop_stops_by_rule_witness:
  "stops_by_rule (relax2d_iteration ex_ones2 ex_ones2 ex_ones2 ex_ones2 (inv_interior2d ex_b2) ex_zero2 3 3 (3 / 2))
     (1 / 10) 200 100 (ex_U2, ex_U2)
     (relax2d_run ex_ones2 ex_ones2 ex_ones2 ex_ones2 ex_b2 ex_zero2 3 3 ex_U2 (3 / 2) (1 / 10) 200) \<and>
   stops_by_rule (relax_iteration ex_ones2 ex_ones2 ex_ones2 ex_ones2 (inv_all2d ex_b2) ex_zero2 3 3 (3 / 2))
     (1 / 10) 200 0 ex_U2
     (relax_run ex_ones2 ex_ones2 ex_ones2 ex_ones2 ex_b2 ex_zero2 3 3 ex_U2 (3 / 2) (1 / 10) 200) \<and>
   stops_by_rule (relax3d_iteration ex_ones3 ex_ones3 ex_ones3 ex_ones3 ex_ones3 ex_ones3 (inv_interior3d ex_b3)
       ex_zero3 3 3 3 (3 / 2))
     (1 / 10) 200 10 (ex_U3, ex_U3)
     (relax3d_run ex_ones3 ex_ones3 ex_ones3 ex_ones3 ex_ones3 ex_ones3 ex_b3 ex_zero3 3 3 3 ex_U3
        (3 / 2) (1 / 10) 200 10)"
  using sweep_loop_stops_by_rule[OF ex_shapes(3) ex_nonzero(1) ex_shapes(4) ex_shapes(7) ex_nonzero(2)
      ex_shapes(8), of 200 ex_ones2 ex_ones2 ex_ones2 ex_ones2 ex_zero2 "3 / 2" "1 / 10" 10
      ex_ones3 ex_ones3 ex_ones3 ex_ones3 ex_ones3 ex_ones3 ex_zero3]
  by simp

lemma relax_iteration_example:
  "relax_iteration ex_ones2 ex_ones2 ex_ones2 ex_ones2 (inv_all2d ex_b2) ex_zero2 3 3 (3 / 2) ex_U2 =
     Inr ([[1, 1, 1], [1, 3 / 2, 1], [1, 1, 1]], 1)"
  by (simp add: relax_iteration_def relax_node_def inv_all2d_def recip_def set2_def ex_defs Let_def
        upt_rec)

text \<open>
  Claim C4, as stated, fails for relax of lab2: on the example grid with
  \<open>alfa = 3/2\<close> its error after the sweep is \<open>1\<close> (the in-sweep \<open>|old - t|\<close>),
  while the field changed by \<open>3/2\<close> at the interior node.
\<close>

theorem relax_error_not_snapshot_norm:
  "relax_iteration ex_ones2 ex_ones2 ex_ones2 ex_ones2 (inv_all2d ex_b2) ex_zero2 3 3 (3 / 2) ex_U2 =
     Inr ([[1, 1, 1], [1, 3 / 2, 1], [1, 1, 1]], 1) \<and>
   snapshot_error2d 3 3 [[1, 1, 1], [1, 3 / 2, 1], [1, 1, 1]] ex_U2 \<noteq> 1"
  using relax_iteration_example
  by (simp add: snapshot_error2d_def interior2d_def ex_defs upt_rec)

text \<open>
  Claim C4, amended. In relax2d and relax3d the error compared with \<open>eps\<close> after
  a sweep is the max over the interior nodes of \<open>|new - old|\<close>, \<open>old\<close> being the whole
  field as it was before the sweep. In relax of lab2 the error is accumulated inside
  the sweep from \<open>|old - t|\<close>, and \<open>|alfa|\<close> times it equals that max-norm.
\<close>

theorem error_is_snapshot_norm:
  assumes b: "shape2d n m b" and nz: "\<forall>(i, j)\<in>set (interior2d n m). b ! i ! j \<noteq> 0"
    and U: "shape2d n m U" and Uo: "shape2d n m U_old"
    and b3: "shape3d nx ny nz b3" and nz3: "\<forall>(i, j, k)\<in>set (interior3d nx ny nz). b3 ! i ! j ! k \<noteq> 0"
    and V: "shape3d nx ny nz V" and Vo: "shape3d nx ny nz V_old"
  shows "(\<exists>U'. relax2d_iteration ax ay cx cy (inv_interior2d b) d_rhs n m omega (U, U_old) =
               Inr ((U', U), snapshot_error2d n m U' U)) \<and>
         (\<exists>V'. relax3d_iteration ax3 ay3 az3 cx3 cy3 cz3 (inv_interior3d b3) d_rhs3 nx ny nz omega (V, V_old) =
               Inr ((V', V), snapshot_error3d nx ny nz V' V)) \<and>
         (\<exists>U' err. relax_iteration ax ay cx cy (inv_all2d b) d_rhs n m omega U = Inr (U', err) \<and>
               \<bar>omega\<bar> * err = snapshot_error2d n m U' U)"
proof (intro conjI)
  from relax2d_iteration_view[OF U Uo inv_interior2d_ok[OF b nz], of ax ay cx cy d_rhs omega]
  show "\<exists>U'. relax2d_iteration ax ay cx cy (inv_interior2d b) d_rhs n m omega (U, U_old) =
               Inr ((U', U), snapshot_error2d n m U' U)"
    unfolding snapshot_error2d_def by blast
next
  from relax3d_iteration_view[OF V Vo inv_interior3d_ok[OF b3 nz3], of ax3 ay3 az3 cx3 cy3 cz3 d_rhs3 omega]
  show "\<exists>V'. relax3d_iteration ax3 ay3 az3 cx3 cy3 cz3 (inv_interior3d b3) d_rhs3 nx ny nz omega (V, V_old) =
               Inr ((V', V), snapshot_error3d nx ny nz V' V)"
    unfolding snapshot_error3d_def by blast
next
  from relax_iteration_view[OF U inv_all2d_ok[OF b nz], of ax ay cx cy d_rhs omega]
  show "\<exists>U' err. relax_iteration ax ay cx cy (inv_all2d b) d_rhs n m omega U = Inr (U', err) \<and>
               \<bar>omega\<bar> * err = snapshot_error2d n m U' U"
    unfolding snapshot_error2d_def by blast
qed

theorem error_is_snapshot_norm_witness:
  "(\<exists>U'. relax2d_iteration ex_ones2 ex_ones2 ex_ones2 ex_ones2 (inv_interior2d ex_b2) ex_zero2 3 3 (3 / 2)
            (ex_U2, ex_zero2) = Inr ((U', ex_U2), snapshot_error2d 3 3 U' ex_U2)) \<and>
   (\<exists>V'. relax3d_iteration ex_ones3 ex_ones3 ex_ones3 ex_ones3 ex_ones3 ex_ones3 (inv_interior3d ex_b3)
            ex_zero3 3 3 3 (3 / 2) (ex_U3, ex_zero3) = Inr ((V', ex_U3), snapshot_error3d 3 3 3 V' ex_U3)) \<and>
   (\<exists>U' err. relax_iteration ex_ones2 ex_ones2 ex_ones2 ex_ones2 (inv_all2d ex_b2) ex_zero2 3 3 (3 / 2) ex_U2 =
            Inr (U', err) \<and> \<bar>3 / 2\<bar> * err = snapshot_error2d 3 3 U' ex_U2)"
  by (rule error_is_snapshot_norm[OF ex_shapes(3) ex_nonzero(1) ex_shapes(4) ex_shapes(2)
        ex_shapes(7) ex_nonzero(2) ex_shapes(8) ex_shapes(6)])

lemma recip_None: "recip x = None \<longleftrightarrow> x = 0"
  by (simp add: recip_def)

lemma inv_interior2d_no_zero_division:
  assumes b: "shape2d n m b" and nz: "\<forall>(i, j)\<in>set (interior2d n m). b ! i ! j \<noteq> 0"
  shows "\<not> divided_by_zero2d (inv_interior2d b)"
proof
  assume "divided_by_zero2d (inv_interior2d b)"
  then obtain i j where i: "i < length b" and j: "j < length (b ! i)"
    and int: "1 \<le> i \<and> i + 1 < length b \<and> 1 \<le> j \<and> j + 1 < length (b ! i)"
    and z: "recip (b ! i ! j) = None"
    by (auto simp: divided_by_zero2d_def inv_interior2d_def list_ex_iff split: if_splits)
  have "length b = n" using b by (simp add: shape2d_def)
  moreover have "length (b ! i) = m" using b i \<open>length b = n\<close> by (auto dest: shape2d_nth)
  ultimately have "(i, j) \<in> set (interior2d n m)" using int by (simp add: interior2d_iff)
  with nz have "b ! i ! j \<noteq> 0" by auto
  with z show False by (simp add: recip_None)
qed

lemma inv_interior3d_no_zero_division:
  assumes b: "shape3d nx ny nz b" and nz: "\<forall>(i, j, k)\<in>set (interior3d nx ny nz). b ! i ! j ! k \<noteq> 0"
  shows "\<not> divided_by_zero3d (inv_interior3d b)"
proof
  assume "divided_by_zero3d (inv_interior3d b)"
  then obtain i j k where i: "i < length b" and j: "j < length (b ! i)" and k: "k < length (b ! i ! j)"
    and int: "1 \<le> i \<and> i + 1 < length b \<and> 1 \<le> j \<and> j + 1 < length (b ! i) \<and>
              1 \<le> k \<and> k + 1 < length (b ! i ! j)"
    and z: "recip (b ! i ! j ! k) = None"
    by (auto simp: divided_by_zero3d_def inv_interior3d_def list_ex_iff split: if_splits)
  have l1: "length b = nx" using b by (simp add: shape3d_def)
  have sh: "shape2d ny nz (b ! i)" using b i l1 by (auto dest: shape3d_nth)
  then have l2: "length (b ! i) = ny" by (simp add: shape2d_def)
  have l3: "length (b ! i ! j) = nz" using sh j l2 by (auto dest: shape2d_nth)
  have "(i, j, k) \<in> set (interior3d nx ny nz)" using int l1 l2 l3 by (simp add: interior3d_iff)
  with nz have "b ! i ! j ! k \<noteq> 0" by auto
  with z show False by (simp add: recip_None)
qed

lemma inv_interior2d_boundary:
  assumes b: "shape2d n m b" and bd: "boundary2d n m i j"
  shows "inv_interior2d b ! i ! j = Some 0"
proof -
  from bd have lt: "i < n" "j < m" by (auto simp: boundary2d_def)
  have l: "length b = n" "length (b ! i) = m"
    using b shape2d_nth[OF b lt(1)] by (simp_all add: shape2d_def)
  show ?thesis using bd l lt by (auto simp: inv_interior2d_def boundary2d_def)
qed

lemma inv_interior3d_boundary:
  assumes b: "shape3d nx ny nz b" and bd: "boundary3d nx ny nz i j k"
  shows "inv_interior3d b ! i ! j ! k = Some 0"
proof -
  from bd have lt: "i < nx" "j < ny" "k < nz" by (auto simp: boundary3d_def)
  have l1: "length b = nx" using b by (simp add: shape3d_def)
  have sh: "shape2d ny nz (b ! i)" by (rule shape3d_nth[OF b lt(1)])
  then have l2: "length (b ! i) = ny" by (simp add: shape2d_def)
  have l3: "length (b ! i ! j) = nz" by (rule shape2d_nth[OF sh lt(2)])
  show ?thesis using bd l1 l2 l3 lt by (auto simp: inv_interior3d_def boundary3d_def)
qed

lemma inv_all2d_zero_division: "divided_by_zero2d (inv_all2d b) \<longleftrightarrow> list_ex (list_ex (\<lambda>x. x = 0)) b"
proof -
  have "list_ex (\<lambda>r. r = None) (map recip row) \<longleftrightarrow> list_ex (\<lambda>x. x = 0) row" for row
    by (induction row) (simp_all add: recip_None)
  then have "list_ex (list_ex (\<lambda>r. r = None)) (map (map recip) rows) \<longleftrightarrow>
             list_ex (list_ex (\<lambda>x. x = 0)) rows" for rows
    by (induction rows) simp_all
  then show ?thesis by (simp add: divided_by_zero2d_def inv_all2d_def)
qed

text \<open>
  Claim C5, as stated, fails for relax of lab2, which inverts every entry of \<open>b\<close>:
  on the example diagonal, nonzero at the one interior node and zero on the ring,
  computing \<open>inv_b\<close> divides by zero.
\<close>

theorem relax_inverts_the_boundary:
  "interior2d 3 3 = [(1, 1)] \<and> ex_b2 ! 1 ! 1 \<noteq> 0 \<and> divided_by_zero2d (inv_all2d ex_b2)"
  by (simp add: interior2d_def ex_defs divided_by_zero2d_def inv_all2d_def recip_def upt_rec)

text \<open>
  Claim C5, amended. relax2d and relax3d compute the reciprocal of \<open>b\<close> on the
  interior block only (every entry of \<open>inv_b\<close> on the ring is a plain zero): with
  \<open>b\<close> nonzero at all interior nodes they divide by zero nowhere, whatever \<open>b\<close> is on
  the ring. relax of lab2 inverts every entry of \<open>b\<close>: it divides by zero exactly when
  \<open>b\<close> has a zero entry somewhere; with \<open>b\<close> nonzero at all interior nodes it still
  returns a field, since no sweep reads a reciprocal on the ring.
\<close>

theorem interior_reciprocals_only:
  assumes b: "shape2d n m b" and nz: "\<forall>(i, j)\<in>set (interior2d n m). b ! i ! j \<noteq> 0"
    and U0: "shape2d n m U0"
    and b3: "shape3d nx ny nz b3" and nz3: "\<forall>(i, j, k)\<in>set (interior3d nx ny nz). b3 ! i ! j ! k \<noteq> 0"
  shows "\<not> divided_by_zero2d (inv_interior2d b) \<and>
         (\<forall>i j. boundary2d n m i j \<longrightarrow> inv_interior2d b ! i ! j = Some 0) \<and>
         \<not> divided_by_zero3d (inv_interior3d b3) \<and>
         (\<forall>i j k. boundary3d nx ny nz i j k \<longrightarrow> inv_interior3d b3 ! i ! j ! k = Some 0) \<and>
         (divided_by_zero2d (inv_all2d b) \<longleftrightarrow> list_ex (list_ex (\<lambda>x. x = 0)) b) \<and>
         (\<exists>U. relax ax ay cx cy b d_rhs n m U0 alfa eps max_iter = Inr U)"
  using inv_interior2d_no_zero_division[OF b nz] inv_interior2d_boundary[OF b]
    inv_interior3d_no_zero_division[OF b3 nz3] inv_interior3d_boundary[OF b3]
    inv_all2d_zero_division[of b] relax_total[OF b nz U0, of ax ay cx cy d_rhs alfa eps max_iter]
  by blast

theorem interior_reciprocals_only_witness:
  "\<not> divided_by_zero2d (inv_interior2d ex_b2) \<and>
   inv_interior2d ex_b2 ! 0 ! 0 = Some 0 \<and>
   \<not> divided_by_zero3d (inv_interior3d ex_b3) \<and>
   inv_interior3d ex_b3 ! 0 ! 0 ! 0 = Some 0 \<and>
   divided_by_zero2d (inv_all2d ex_b2) \<and>
   (\<exists>U. relax ex_ones2 ex_ones2 ex_ones2 ex_ones2 ex_b2 ex_zero2 3 3 ex_U2 (3 / 2) (1 / 10) 200 = Inr U)"
proof -
  have bd: "boundary2d 3 3 0 0" "boundary3d 3 3 3 0 0 0" by (simp_all add: boundary2d_def boundary3d_def)
  have z: "list_ex (list_ex (\<lambda>x. x = 0)) ex_b2" by (simp add: ex_defs)
  from interior_reciprocals_only[OF ex_shapes(3) ex_nonzero(1) ex_shapes(4) ex_shapes(7) ex_nonzero(2),
      of ex_ones2 ex_ones2 ex_ones2 ex_ones2 ex_zero2 "3 / 2" "1 / 10" 200] bd z
  show ?thesis by blast
qed













lemma py_index_nat: "i < len \<Longrightarrow> py_index len (int i) = Inr i"
  by (simp add: py_index_def)

lemma ncols_shape: "shape2d n m A \<Longrightarrow> 0 < n \<Longrightarrow> ncols A = m"
  by (cases A) (auto simp: ncols_def shape2d_def)

lemma assign2_ok:
  assumes "shape2d n m A" "i < n" "j < m"
  shows "assign2 A (int i) (int j) v = Inr (set2 A i j v)"
proof -
  have "length A = n" using assms by (simp add: shape2d_def)
  moreover have "ncols A = m" using assms by (intro ncols_shape) auto
  ultimately show ?thesis using assms by (simp add: assign2_def bind_err_def py_index_nat)
qed

lemma set2_nth:
  assumes "shape2d n m A" "i < n" "j < m"
  shows "set2 A i j v ! i ! j = v"
  using field2d_set2[OF assms, of v] by (simp add: field2d_def fun_eq_iff)

lemma set_source_node_ok:
  assumes "shape2d n m ax" "shape2d n m ay" "shape2d n m cx" "shape2d n m cy" "shape2d n m b"
    "shape2d n m d_rhs" "i < n" "j < m"
  shows "set_source_node (int i) (int j) sv (ax, ay, cx, cy, b, d_rhs) =
           Inr (set2 ax i j 0, set2 ay i j 0, set2 cx i j 0, set2 cy i j 0, set2 b i j 1, set2 d_rhs i j sv)"
  using assms by (simp add: set_source_node_def assign2_ok bind_err_def)

lemma sor_loop_counted:
  assumes total: "\<And>s it. P s it \<Longrightarrow> \<exists>s' e'. body s = Inr (s', e') \<and> P s' (it + 1)"
  shows "P s it \<Longrightarrow> \<exists>s' e' it'. sor_loop body eps max_iter min_iter (s, e, it) = Inr (s', e', it') \<and> P s' it'"
proof (induction "nat (max max_iter min_iter - int it)" arbitrary: s e it)
  case 0
  then have F: "\<not> ((e > eps \<and> int it < max_iter) \<or> int it < min_iter)" by auto
  have "sor_loop body eps max_iter min_iter (s, e, it) = Inr (s, e, it)"
    by (subst sor_loop.simps) (simp only: F if_False)
  then show ?case using 0 by blast
next
  case (Suc n)
  show ?case
  proof (cases "(e > eps \<and> int it < max_iter) \<or> int it < min_iter")
    case False
    have "sor_loop body eps max_iter min_iter (s, e, it) = Inr (s, e, it)"
      by (subst sor_loop.simps) (simp only: False if_False)
    then show ?thesis using Suc.prems by blast
  next
    case True
    from total[OF Suc.prems] obtain s1 e1 where b: "body s = Inr (s1, e1)" and I1: "P s1 (it + 1)" by blast
    have n: "n = nat (max max_iter min_iter - int (it + 1))" using Suc.hyps(2) by simp
    from Suc.hyps(1)[OF n I1, of e1] obtain s' e' it' where
      "sor_loop body eps max_iter min_iter (s1, e1, it + 1) = Inr (s', e', it')" "P s' it'" by blast
    then show ?thesis using True b by (subst sor_loop.simps) simp
  qed
qed

lemma isolated_node_sweep:
  assumes b: "shape2d n m b" and nz: "\<forall>(i, j)\<in>set (interior2d n m). b ! i ! j \<noteq> 0"
    and U: "shape2d n m U" and IJ: "(I, J) \<in> set (interior2d n m)"
    and iso: "ax ! I ! J = 0" "ay ! I ! J = 0" "cx ! I ! J = 0" "cy ! I ! J = 0" "b ! I ! J = 1"
  shows "\<exists>U' e. relax_iteration ax ay cx cy (inv_all2d b) d_rhs n m alfa U = Inr (U', e) \<and>
           shape2d n m U' \<and> U' ! I ! J = alfa * (- d_rhs ! I ! J) + (1 - alfa) * U ! I ! J"
proof -
  from relax_iteration_view[OF U inv_all2d_ok[OF b nz], of ax ay cx cy d_rhs alfa] obtain U' e where
    run: "relax_iteration ax ay cx cy (inv_all2d b) d_rhs n m alfa U = Inr (U', e)" and
    sh: "shape2d n m U'" and
    f: "field2d U' = gs_sweep (sor2d ax ay cx cy b d_rhs alfa) (interior2d n m) (field2d U)"
    by blast
  from gs_field2d[OF f] IJ have
    "U' ! I ! J = alfa * ((ax ! I ! J * U' ! (I - 1) ! J + cx ! I ! J * U ! (I + 1) ! J +
                    ay ! I ! J * U' ! I ! (J - 1) + cy ! I ! J * U ! I ! (J + 1) -
                    d_rhs ! I ! J) / b ! I ! J) + (1 - alfa) * U ! I ! J"
    unfolding gauss_seidel2d_def by blast
  then have "U' ! I ! J = alfa * (- d_rhs ! I ! J) + (1 - alfa) * U ! I ! J"
    by (simp add: iso)
  with run sh show ?thesis by blast
qed

lemma isolated_node_run:
  assumes b: "shape2d n m b" and nz: "\<forall>(i, j)\<in>set (interior2d n m). b ! i ! j \<noteq> 0"
    and U0: "shape2d n m U0" and IJ: "(I, J) \<in> set (interior2d n m)"
    and iso: "ax ! I ! J = 0" "ay ! I ! J = 0" "cx ! I ! J = 0" "cy ! I ! J = 0" "b ! I ! J = 1"
  shows "\<exists>U err N. relax_run ax ay cx cy b d_rhs n m U0 alfa eps max_iter = Inr (U, err, N) \<and>
           U ! I ! J = - d_rhs ! I ! J + (1 - alfa) ^ N * (U0 ! I ! J + d_rhs ! I ! J)"
proof -
  let ?P = "\<lambda>U N. shape2d n m U \<and>
              U ! I ! J = - d_rhs ! I ! J + (1 - alfa) ^ N * (U0 ! I ! J + d_rhs ! I ! J)"
  have "\<exists>s' e' it'. sor_loop (relax_iteration ax ay cx cy (inv_all2d b) d_rhs n m alfa) eps max_iter 0
          (U0, 1, 0) = Inr (s', e', it') \<and> ?P s' it'"
  proof (rule sor_loop_counted[where P = ?P])
    show "?P U0 0" using U0 by simp
  next
    fix s it assume P: "?P s it"
    from isolated_node_sweep[OF b nz _ IJ iso, of s d_rhs alfa] P obtain U' e where
      run: "relax_iteration ax ay cx cy (inv_all2d b) d_rhs n m alfa s = Inr (U', e)" and
      sh: "shape2d n m U'" and
      v: "U' ! I ! J = alfa * (- d_rhs ! I ! J) + (1 - alfa) * s ! I ! J"
      by blast
    from P have sv: "s ! I ! J = - d_rhs ! I ! J + (1 - alfa) ^ it * (U0 ! I ! J + d_rhs ! I ! J)"
      by simp
    have "U' ! I ! J = - d_rhs ! I ! J + (1 - alfa) ^ (it + 1) * (U0 ! I ! J + d_rhs ! I ! J)"
      unfolding v sv by (simp add: algebra_simps)
    with run sh show "\<exists>s' e'. relax_iteration ax ay cx cy (inv_all2d b) d_rhs n m alfa s = Inr (s', e') \<and>
        ?P s' (it + 1)" by blast
  qed
  then show ?thesis by (auto simp: relax_run_def relax_loop_sor)
qed

lemma ex_config_source_value: "source_value ex_config (Suc 0) = 1"
  by (simp add: source_value_def ex_config_def)

lemma ex_set_sources:
  "set_sources (Suc 0) (ex_ones2, ex_ones2, ex_ones2, ex_ones2, ex_ones2, ex_zero2) ex_config =
     Inr (ex_iso2, ex_iso2, ex_iso2, ex_iso2, ex_ones2, ex_rhs)"
proof -
  have c: "cfg_nx ex_config = 3" "cfg_ny ex_config = 3" "cfg_experiment_type ex_config = ''CLAMPED_CENTER''"
    by (simp_all add: ex_config_def)
  have d: "(3::nat) div 2 = 1" by simp
  have "set_sources (Suc 0) (ex_ones2, ex_ones2, ex_ones2, ex_ones2, ex_ones2, ex_zero2) ex_config =
        set_source_node (int 1) (int 1) 1 (ex_ones2, ex_ones2, ex_ones2, ex_ones2, ex_ones2, ex_zero2)"
    unfolding set_sources_def Let_def c d ex_config_source_value by simp
  also have "\<dots> = Inr (set2 ex_ones2 1 1 0, set2 ex_ones2 1 1 0, set2 ex_ones2 1 1 0, set2 ex_ones2 1 1 0,
                       set2 ex_ones2 1 1 1, set2 ex_zero2 1 1 1)"
    by (rule set_source_node_ok[OF ex_shapes(1) ex_shapes(1) ex_shapes(1) ex_shapes(1) ex_shapes(1)
          ex_shapes(2)]) simp_all
  also have "\<dots> = Inr (ex_iso2, ex_iso2, ex_iso2, ex_iso2, ex_ones2, ex_rhs)"
    by (simp add: set2_def ex_defs ex_iso2_def ex_rhs_def)
  finally show ?thesis .
qed

lemma ex_relax_iteration1:
  "relax_iteration ex_iso2 ex_iso2 ex_iso2 ex_iso2 (inv_all2d ex_ones2) ex_rhs 3 3 (3 / 2) ex_zero2 =
     Inr ([[0, 0, 0], [0, - (3 / 2), 0], [0, 0, 0]], 1)"
  by (simp add: relax_iteration_def relax_node_def inv_all2d_def recip_def set2_def ex_defs ex_iso2_def
        ex_rhs_def Let_def upt_rec)

lemma ex_relax_iteration2:
  "relax_iteration ex_iso2 ex_iso2 ex_iso2 ex_iso2 (inv_all2d ex_ones2) ex_rhs 3 3 (3 / 2)
     [[0, 0, 0], [0, - (3 / 2), 0], [0, 0, 0]] =
     Inr ([[0, 0, 0], [0, - (3 / 4), 0], [0, 0, 0]], 1 / 2)"
  by (simp add: relax_iteration_def relax_node_def inv_all2d_def recip_def set2_def ex_defs ex_iso2_def
        ex_rhs_def Let_def upt_rec)

lemma ex_relax_run:
  "relax_run ex_iso2 ex_iso2 ex_iso2 ex_iso2 ex_ones2 ex_rhs 3 3 ex_zero2 (3 / 2) (1 / 2) 10 =
     Inr ([[0, 0, 0], [0, - (3 / 4), 0], [0, 0, 0]], 1 / 2, 2)"
  unfolding relax_run_def
  apply (subst relax_loop.simps, simp add: ex_relax_iteration1)
  apply (subst relax_loop.simps, simp add: ex_relax_iteration2)
  apply (subst relax_loop.simps, simp)
  done

text \<open>
  Claim C6, as stated, fails in its second half. At step \<open>1\<close> of the example the
  prescribed source value is \<open>1\<close>; the row of the source node is overridden as the
  claim says, and relax returns the value \<open>- 3/4\<close> at the source node.
\<close>

theorem source_node_not_at_source_value:
  "set_sources 1 (ex_ones2, ex_ones2, ex_ones2, ex_ones2, ex_ones2, ex_zero2) ex_config =
     Inr (ex_iso2, ex_iso2, ex_iso2, ex_iso2, ex_ones2, ex_rhs) \<and>
   source_value ex_config 1 = 1 \<and>
   relax ex_iso2 ex_iso2 ex_iso2 ex_iso2 ex_ones2 ex_rhs 3 3 ex_zero2 (3 / 2) (1 / 2) 10 =
     Inr [[0, 0, 0], [0, - (3 / 4), 0], [0, 0, 0]]"
  by (simp add: ex_set_sources ex_config_source_value relax_def ex_relax_run)

text \<open>
  Claim C6, amended. At every step \<open>k\<close> of a centre-source experiment on a grid
  with an interior (at least three nodes on each axis) set_sources overrides the row of
  the source node to \<open>b = 1\<close>, all four neighbour coefficients \<open>0\<close> and
  \<open>rhs = amplitude * sin (pi * frequency_k * k * dt)\<close>. Under the stencil equation of
  the solver, whose diagonal term is \<open>- b * U\<close>, a field satisfies the equation of that
  row exactly when its value at the source node is minus the source value; and relax,
  run on the coefficients set_sources returns, leaves the node after \<open>N\<close> sweeps at
  \<open>- source value + (1 - alfa) ^ N * (initial guess + source value)\<close>: the node is
  driven to minus the source value, independently of its neighbours.
\<close>

theorem source_row_is_isolated:
  assumes sh: "shape2d (cfg_nx config) (cfg_ny config) ax" "shape2d (cfg_nx config) (cfg_ny config) ay"
    "shape2d (cfg_nx config) (cfg_ny config) cx" "shape2d (cfg_nx config) (cfg_ny config) cy"
    "shape2d (cfg_nx config) (cfg_ny config) b" "shape2d (cfg_nx config) (cfg_ny config) d_rhs"
    and U0: "shape2d (cfg_nx config) (cfg_ny config) U0"
    and nz: "\<forall>(i, j)\<in>set (interior2d (cfg_nx config) (cfg_ny config)). b ! i ! j \<noteq> 0"
    and ty: "cfg_experiment_type config = ''FREE_CENTER'' \<or> cfg_experiment_type config = ''CLAMPED_CENTER''"
    and size: "3 \<le> cfg_nx config" "3 \<le> cfg_ny config"
  shows "\<exists>ax' ay' cx' cy' b' d_rhs'.
      set_sources k (ax, ay, cx, cy, b, d_rhs) config = Inr (ax', ay', cx', cy', b', d_rhs') \<and>
      ax' ! (cfg_nx config div 2) ! (cfg_ny config div 2) = 0 \<and>
      ay' ! (cfg_nx config div 2) ! (cfg_ny config div 2) = 0 \<and>
      cx' ! (cfg_nx config div 2) ! (cfg_ny config div 2) = 0 \<and>
      cy' ! (cfg_nx config div 2) ! (cfg_ny config div 2) = 0 \<and>
      b' ! (cfg_nx config div 2) ! (cfg_ny config div 2) = 1 \<and>
      d_rhs' ! (cfg_nx config div 2) ! (cfg_ny config div 2) =
        cfg_amplitude config * sin (pi * cfg_frequency_k config * real k * cfg_dt config) \<and>
      (\<forall>U. stencil_eq ax' ay' cx' cy' b' d_rhs' U (cfg_nx config div 2) (cfg_ny config div 2) \<longleftrightarrow>
           U ! (cfg_nx config div 2) ! (cfg_ny config div 2) = - source_value config k) \<and>
      (\<exists>U err N. relax_run ax' ay' cx' cy' b' d_rhs' (cfg_nx config) (cfg_ny config) U0 alfa eps max_iter =
                     Inr (U, err, N) \<and>
           U ! (cfg_nx config div 2) ! (cfg_ny config div 2) =
             - source_value config k +
             (1 - alfa) ^ N * (U0 ! (cfg_nx config div 2) ! (cfg_ny config div 2) + source_value config k))"
proof -
  let ?n = "cfg_nx config" and ?m = "cfg_ny config"
  let ?I = "?n div 2" and ?J = "?m div 2"
  let ?sv = "source_value config k"
  have lt: "?I < ?n" "?J < ?m" using size by simp_all
  have IJ: "(?I, ?J) \<in> set (interior2d ?n ?m)" using size by (simp add: interior2d_iff) linarith
  let ?ax = "set2 ax ?I ?J 0" and ?ay = "set2 ay ?I ?J 0" and ?cx = "set2 cx ?I ?J 0"
  let ?cy = "set2 cy ?I ?J 0" and ?b = "set2 b ?I ?J 1" and ?d = "set2 d_rhs ?I ?J ?sv"
  have run: "set_sources k (ax, ay, cx, cy, b, d_rhs) config = Inr (?ax, ?ay, ?cx, ?cy, ?b, ?d)"
    using ty set_source_node_ok[OF sh lt, of ?sv] by (auto simp: set_sources_def Let_def)
  have at: "?ax ! ?I ! ?J = 0" "?ay ! ?I ! ?J = 0" "?cx ! ?I ! ?J = 0" "?cy ! ?I ! ?J = 0"
    "?b ! ?I ! ?J = 1" "?d ! ?I ! ?J = ?sv"
    using sh lt by (simp_all add: set2_nth)
  have shb: "shape2d ?n ?m ?b" by (rule shape2d_set2[OF sh(5)])
  have nzb: "\<forall>(i, j)\<in>set (interior2d ?n ?m). ?b ! i ! j \<noteq> 0"
  proof (intro ballI, clarify)
    fix i j assume ij: "(i, j) \<in> set (interior2d ?n ?m)" and z: "?b ! i ! j = 0"
    show False
    proof (cases "(i, j) = (?I, ?J)")
      case True
      then show ?thesis using z at(5) by simp
    next
      case False
      from field2d_set2_other[OF False, of b 1] have "?b ! i ! j = b ! i ! j" by (simp add: field2d_def)
      then show ?thesis using z nz ij by auto
    qed
  qed
  have eq: "\<forall>U. stencil_eq ?ax ?ay ?cx ?cy ?b ?d U ?I ?J \<longleftrightarrow> U ! ?I ! ?J = - ?sv"
    unfolding stencil_eq_def at by auto
  have amp: "?d ! ?I ! ?J = cfg_amplitude config * sin (pi * cfg_frequency_k config * real k * cfg_dt config)"
    unfolding at by (simp only: source_value_def)
  have loop: "\<exists>U err N. relax_run ?ax ?ay ?cx ?cy ?b ?d ?n ?m U0 alfa eps max_iter = Inr (U, err, N) \<and>
           U ! ?I ! ?J = - ?sv + (1 - alfa) ^ N * (U0 ! ?I ! ?J + ?sv)"
    using isolated_node_run[OF shb nzb U0 IJ at(1-5), of ?d alfa eps max_iter] unfolding at .
  show ?thesis
    apply (rule exI[of _ ?ax], rule exI[of _ ?ay], rule exI[of _ ?cx], rule exI[of _ ?cy],
        rule exI[of _ ?b], rule exI[of _ ?d])
    apply (intro conjI)
    apply (rule run, rule at(1), rule at(2), rule at(3), rule at(4), rule at(5), rule amp, rule eq,
        rule loop)
    done
qed

theorem source_row_is_isolated_witness:
  "\<exists>ax' ay' cx' cy' b' d_rhs'.
      set_sources 1 (ex_ones2, ex_ones2, ex_ones2, ex_ones2, ex_ones2, ex_zero2) ex_config = Inr (ax', ay', cx', cy', b', d_rhs') \<and>
      ax' ! (cfg_nx ex_config div 2) ! (cfg_ny ex_config div 2) = 0 \<and>
      ay' ! (cfg_nx ex_config div 2) ! (cfg_ny ex_config div 2) = 0 \<and>
      cx' ! (cfg_nx ex_config div 2) ! (cfg_ny ex_config div 2) = 0 \<and>
      cy' ! (cfg_nx ex_config div 2) ! (cfg_ny ex_config div 2) = 0 \<and>
      b' ! (cfg_nx ex_config div 2) ! (cfg_ny ex_config div 2) = 1 \<and>
      d_rhs' ! (cfg_nx ex_config div 2) ! (cfg_ny ex_config div 2) =
        cfg_amplitude ex_config * sin (pi * cfg_frequency_k ex_config * real 1 * cfg_dt ex_config) \<and>
      (\<forall>U. stencil_eq ax' ay' cx' cy' b' d_rhs' U (cfg_nx ex_config div 2) (cfg_ny ex_config div 2) \<longleftrightarrow>
           U ! (cfg_nx ex_config div 2) ! (cfg_ny ex_config div 2) = - source_value ex_config 1) \<and>
      (\<exists>U err N. relax_run ax' ay' cx' cy' b' d_rhs' (cfg_nx ex_config) (cfg_ny ex_config) ex_zero2 (3 / 2) (1 / 2) 10 =
                     Inr (U, err, N) \<and>
           U ! (cfg_nx ex_config div 2) ! (cfg_ny ex_config div 2) =
             - source_value ex_config 1 +
             (1 - 3 / 2) ^ N * (ex_zero2 ! (cfg_nx ex_config div 2) ! (cfg_ny ex_config div 2) + source_value ex_config 1))"
  by (rule source_row_is_isolated)
     (simp_all add: ex_config_def interior2d_def ex_defs shape2d_def upt_rec)

end
